theory Spec2Isabelle
  imports Main "HOL-Library.Signed_Division"
begin

section \<open>The IR interface the pass reads\<close>

text \<open>
  A \<open>Node*\<close> is an identity-comparable handle. Handles are natural numbers here (the
  node's unique id), and a graph maps every handle to what the pass can read from the node.
  A nullable \<open>Node*\<close> is a \<open>Node option\<close>, with \<open>None\<close> for \<open>nullptr\<close>.
\<close>

type_synonym Node = nat

datatype IrOpcode =
    kAllocate | kHeapConstant | kParameter | kFinishRegion
  | kCheckMaps | kEnsureWritableFastElements | kMaybeGrowFastElements
  | kTransitionElementsKind | kLoadField | kStoreField | kLoadElement
  | kStoreElement | kStoreTypedElement | kStoreBuffer | kEffectPhi
  | kLoop | kMerge | kStart | kDead | kOtherOpcode nat

datatype MachineRepresentation =
    kNone | kBit | kWord8 | kWord16 | kWord32 | kWord64
  | kFloat32 | kFloat64 | kSimd128 | kTaggedSigned | kTaggedPointer | kTagged

datatype BaseTaggedness = kUntaggedBase | kTaggedBase

datatype ElementsTransition = kFastTransition | kSlowTransition

text \<open>
  Modelled from the spec: the static type of a node (class \<open>Type\<close>, not part of this file)
  is "a set of runtime values it may hold"; \<open>Maybe\<close> is non-empty intersection and \<open>Is\<close>
  is inclusion.
\<close>

type_synonym Type = "nat set"

definition Maybe :: "Type \<Rightarrow> Type \<Rightarrow> bool" where
  "Maybe s t = (s \<inter> t \<noteq> {})"

definition Is :: "Type \<Rightarrow> Type \<Rightarrow> bool" where
  "Is s t = (s \<subseteq> t)"

record FieldAccess =
  base_is_tagged :: BaseTaggedness
  offset :: int
  field_representation :: MachineRepresentation

record ElementAccess =
  element_representation :: MachineRepresentation

record GrowFastElementsFlags =
  kDoubleElements :: bool
  kArrayObject :: bool

text \<open>
  The operator descriptor \<open>node->op()\<close>: its arities, the \<open>Operator::kNoWrite\<close> property and
  the operator parameters read through \<open>FieldAccessOf\<close>, \<open>ElementAccessOf\<close>,
  \<open>GrowFastElementsFlagsOf\<close> and \<open>ElementsTransitionOf\<close>.
\<close>

record Operator =
  ValueInputCount :: int
  EffectInputCount :: int
  EffectOutputCount :: int
  kNoWrite :: bool
  FieldAccessOf :: FieldAccess
  ElementAccessOf :: ElementAccess
  GrowFastElementsFlagsOf :: GrowFastElementsFlags
  ElementsTransitionOf :: ElementsTransition

text \<open>
  What a handle points to. \<open>InputAt\<close> is \<open>node->InputAt(i)\<close>; \<open>GetValueInput\<close>,
  \<open>GetEffectInput\<close> and \<open>GetControlInput\<close> are the accessors of \<open>NodeProperties\<close>, which
  belong to the graph and are taken as given.
\<close>

record NodeData =
  opcode :: IrOpcode
  op :: Operator
  GetType :: Type
  InputAt :: "nat \<Rightarrow> Node"
  InputCount :: int
  GetValueInput :: "nat \<Rightarrow> Node"
  GetEffectInput :: "nat \<Rightarrow> Node"
  GetControlInput :: Node
  IsDead :: bool

type_synonym Graph = "Node \<Rightarrow> NodeData"

section \<open>The alias oracle\<close>

datatype Aliasing = kNoAlias | kMayAlias | kMustAlias

text \<open>
  \<open>QueryAlias\<close> calls itself on the first input of a \<open>FinishRegion\<close> node. On a chain of
  such nodes that runs into a cycle the C++ function does not return; that is the value
  \<open>None\<close>. The two \<open>switch\<close> statements are written as one chain of tests in the order
  of the source: a \<open>default: break\<close> falls through to the next test.
\<close>

partial_function (option) QueryAlias :: "Graph \<Rightarrow> Node \<Rightarrow> Node \<Rightarrow> Aliasing option" where
  "QueryAlias g a b =
     (if a = b then Some kMustAlias
      else if \<not> Maybe (GetType (g a)) (GetType (g b)) then Some kNoAlias
      else if opcode (g b) = kAllocate \<and> opcode (g a) = kAllocate then Some kNoAlias
      else if opcode (g b) = kAllocate \<and> opcode (g a) = kHeapConstant then Some kNoAlias
      else if opcode (g b) = kAllocate \<and> opcode (g a) = kParameter then Some kNoAlias
      else if opcode (g b) = kAllocate \<and> opcode (g a) = kFinishRegion
        then QueryAlias g (InputAt (g a) 0) b
      else if opcode (g a) = kAllocate \<and> opcode (g b) = kHeapConstant then Some kNoAlias
      else if opcode (g a) = kAllocate \<and> opcode (g b) = kParameter then Some kNoAlias
      else if opcode (g a) = kAllocate \<and> opcode (g b) = kFinishRegion
        then QueryAlias g a (InputAt (g b) 0)
      else Some kMayAlias)"

declare QueryAlias.simps [code]

definition MayAlias :: "Graph \<Rightarrow> Node \<Rightarrow> Node \<Rightarrow> bool option" where
  "MayAlias g a b = map_option (\<lambda>r. r \<noteq> kNoAlias) (QueryAlias g a b)"

definition MustAlias :: "Graph \<Rightarrow> Node \<Rightarrow> Node \<Rightarrow> bool option" where
  "MustAlias g a b = map_option (\<lambda>r. r = kMustAlias) (QueryAlias g a b)"

section \<open>Results, assertions and constants\<close>

text \<open>
  A call either returns a value or does not return normally: an alias query that runs
  forever (\<open>Diverges\<close>), \<open>UNREACHABLE()\<close>, a failed \<open>DCHECK\<close>, a read through \<open>nullptr\<close>
  or a write past the end of a fixed-size array.
\<close>

datatype error = Diverges | Unreachable | DCheckFailed | NullDeref | OutOfBounds

type_synonym 'a result = "error + 'a"

definition and_then :: "'a result \<Rightarrow> ('a \<Rightarrow> 'b result) \<Rightarrow> 'b result" where
  "and_then r f = (case r of Inl e \<Rightarrow> Inl e | Inr x \<Rightarrow> f x)"

definition returned :: "'a option \<Rightarrow> 'a result" where
  "returned r = (case r of None \<Rightarrow> Inl Diverges | Some x \<Rightarrow> Inr x)"

text \<open>
  The build configuration: whether \<open>DCHECK\<close>s are compiled in (\<open>DEBUG\<close>), and the target
  constants \<open>kPointerSize\<close> and \<open>MachineType::PointerRepresentation()\<close>, which the source
  uses and does not define.
\<close>

record Config =
  DEBUG :: bool
  kPointerSize :: int
  PointerRepresentation :: MachineRepresentation

definition DCHECK :: "Config \<Rightarrow> bool \<Rightarrow> unit result" where
  "DCHECK cfg c = (if DEBUG cfg \<and> \<not> c then Inl DCheckFailed else Inr ())"

text \<open>
  Modelled from the spec: the sizes of the two fixed arrays, \<open>kMaxTrackedElements\<close>
  (\<open>arraysize(elements_)\<close>, "suggested capacity 8") and \<open>kMaxTrackedFields\<close>
  (\<open>arraysize(fields_)\<close>, "suggested value 32"), are declared in the header.
\<close>

definition kMaxTrackedElements :: nat where
  "kMaxTrackedElements = 8"

definition kMaxTrackedFields :: nat where
  "kMaxTrackedFields = 32"

text \<open>
  All abstract values are immutable once built and live in one arena. The model carries
  them by value. The one place where a caller tells a returned pointer from the receiver
  is the result of \<open>Kill\<close> and \<open>Merge\<close>, which is either \<open>this\<close> itself or an object
  newly allocated in the zone: \<open>ReturnThis\<close> or \<open>ReturnNew\<close>.
\<close>

datatype 'a returns = ReturnThis | ReturnNew 'a

definition deref :: "'a \<Rightarrow> 'a returns \<Rightarrow> 'a" where
  "deref this r = (case r of ReturnThis \<Rightarrow> this | ReturnNew that \<Rightarrow> that)"

section \<open>AbstractElements\<close>

text \<open>
  An entry of the ring: three nullable node pointers. The member \<open>value\<close> is \<open>val\<close> here.
\<close>

record Element =
  object :: "Node option"
  index :: "Node option"
  val :: "Node option"

text \<open>The members \<open>elements_\<close> and \<open>next_index_\<close>, without the trailing underscore.\<close>

record AbstractElements =
  elements :: "Element list"
  next_index :: nat

text \<open>
  Modelled from the spec: the constructors of \<open>Element\<close> and \<open>AbstractElements\<close> are in the
  header. "Empty entries are represented by a null object"; a new ring holds only empty
  entries and its cursor is 0; the three-argument constructor stores one fact at the cursor.
\<close>

definition empty_Element :: Element where
  "empty_Element = \<lparr>object = None, index = None, val = None\<rparr>"

definition new_AbstractElements :: AbstractElements where
  "new_AbstractElements =
     \<lparr>elements = replicate kMaxTrackedElements empty_Element, next_index = 0\<rparr>"

text \<open>\<open>that->elements_[that->next_index_++] = element\<close>, a write past the array being an error.\<close>

definition store_next :: "AbstractElements \<Rightarrow> Element \<Rightarrow> AbstractElements result" where
  "store_next that element =
     (if next_index that < length (elements that)
      then Inr (that\<lparr>elements := (elements that)[next_index that := element],
                     next_index := next_index that + 1\<rparr>)
      else Inl OutOfBounds)"

definition new_AbstractElements3 :: "Node \<Rightarrow> Node \<Rightarrow> Node \<Rightarrow> AbstractElements result" where
  "new_AbstractElements3 obj idx value =
     store_next new_AbstractElements \<lparr>object = Some obj, index = Some idx, val = Some value\<rparr>"

text \<open>
  \<open>MustAlias(index, element.index)\<close> reads the type of \<open>element.index\<close>: with a null index
  the call dereferences \<open>nullptr\<close> (the left operand is a node, so the two are not equal).
\<close>

definition alias_with :: "(Graph \<Rightarrow> Node \<Rightarrow> Node \<Rightarrow> bool option) \<Rightarrow> Graph \<Rightarrow> Node \<Rightarrow> Node option \<Rightarrow> bool result" where
  "alias_with query g a b = (case b of None \<Rightarrow> Inl NullDeref | Some b' \<Rightarrow> returned (query g a b'))"

fun Lookup_elements :: "Config \<Rightarrow> Graph \<Rightarrow> Node \<Rightarrow> Node \<Rightarrow> Element list \<Rightarrow> Node option result" where
  "Lookup_elements cfg g obj idx [] = Inr None"
| "Lookup_elements cfg g obj idx (element # rest) =
     (if object element = None then Lookup_elements cfg g obj idx rest
      else
        and_then (DCHECK cfg (index element \<noteq> None)) (\<lambda>_.
        and_then (DCHECK cfg (val element \<noteq> None)) (\<lambda>_.
        and_then (alias_with MustAlias g obj (object element)) (\<lambda>must_object.
          if must_object
          then and_then (alias_with MustAlias g idx (index element)) (\<lambda>must_index.
                 if must_index then Inr (val element)
                 else Lookup_elements cfg g obj idx rest)
          else Lookup_elements cfg g obj idx rest))))"

definition Lookup :: "Config \<Rightarrow> Graph \<Rightarrow> AbstractElements \<Rightarrow> Node \<Rightarrow> Node \<Rightarrow> Node option result" where
  "Lookup cfg g this obj idx = Lookup_elements cfg g obj idx (elements this)"

text \<open>The inner loop of \<open>Kill\<close>: copy the entries that survive into \<open>that\<close>.\<close>

fun Kill_copy :: "Config \<Rightarrow> Graph \<Rightarrow> Node \<Rightarrow> Node \<Rightarrow> Element list \<Rightarrow> AbstractElements \<Rightarrow> AbstractElements result" where
  "Kill_copy cfg g obj idx [] that = Inr that"
| "Kill_copy cfg g obj idx (element # rest) that =
     (if object element = None then Kill_copy cfg g obj idx rest that
      else
        and_then (DCHECK cfg (index element \<noteq> None)) (\<lambda>_.
        and_then (DCHECK cfg (val element \<noteq> None)) (\<lambda>_.
        and_then (alias_with MayAlias g obj (object element)) (\<lambda>may_object.
          if \<not> may_object
          then and_then (store_next that element) (Kill_copy cfg g obj idx rest)
          else and_then (alias_with MayAlias g idx (index element)) (\<lambda>may_index.
                 if \<not> may_index
                 then and_then (store_next that element) (Kill_copy cfg g obj idx rest)
                 else Kill_copy cfg g obj idx rest that)))))"

text \<open>
  The outer loop of \<open>Kill\<close> over the entries of \<open>this\<close>: at the first entry whose object may
  alias, build and return the new ring; when the loop ends, return \<open>this\<close>.
\<close>

fun Kill_scan :: "Config \<Rightarrow> Graph \<Rightarrow> Node \<Rightarrow> Node \<Rightarrow> AbstractElements \<Rightarrow> Element list \<Rightarrow> AbstractElements returns result" where
  "Kill_scan cfg g obj idx this [] = Inr ReturnThis"
| "Kill_scan cfg g obj idx this (element # rest) =
     (if object element = None then Kill_scan cfg g obj idx this rest
      else
        and_then (alias_with MayAlias g obj (object element)) (\<lambda>may_object.
          if may_object
          then and_then (Kill_copy cfg g obj idx (elements this) new_AbstractElements) (\<lambda>that.
                 Inr (ReturnNew (that\<lparr>next_index := next_index that mod kMaxTrackedElements\<rparr>)))
          else Kill_scan cfg g obj idx this rest))"

definition Kill :: "Config \<Rightarrow> Graph \<Rightarrow> AbstractElements \<Rightarrow> Node \<Rightarrow> Node \<Rightarrow> AbstractElements returns result" where
  "Kill cfg g this obj idx = Kill_scan cfg g obj idx this (elements this)"

definition same_Element :: "Element \<Rightarrow> Element \<Rightarrow> bool" where
  "same_Element x y = (object x = object y \<and> index x = index y \<and> val x = val y)"

text \<open>
  \<open>Equals\<close>: every non-empty entry of \<open>this\<close> is found in \<open>that\<close>, then every non-empty
  entry of \<open>that\<close> is found in \<open>this\<close>. The first line of the source, \<open>if (this == that)
  return true\<close>, is a short cut: on one and the same ring the two loops return true as well
  (lemma \<open>Equals_refl\<close> below), so the value model needs no test of its own for it.
\<close>

definition Equals :: "AbstractElements \<Rightarrow> AbstractElements \<Rightarrow> bool" where
  "Equals this that =
     (list_all (\<lambda>this_element. object this_element = None \<or>
                  list_ex (\<lambda>that_element. same_Element this_element that_element) (elements that))
               (elements this) \<and>
      list_all (\<lambda>that_element. object that_element = None \<or>
                  list_ex (\<lambda>this_element. same_Element that_element this_element) (elements this))
               (elements that))"

fun Merge_inner :: "Element \<Rightarrow> Element list \<Rightarrow> AbstractElements \<Rightarrow> AbstractElements result" where
  "Merge_inner this_element [] copy = Inr copy"
| "Merge_inner this_element (that_element # rest) copy =
     (if same_Element this_element that_element
      then and_then (store_next copy this_element) (Merge_inner this_element rest)
      else Merge_inner this_element rest copy)"

fun Merge_outer :: "Element list \<Rightarrow> Element list \<Rightarrow> AbstractElements \<Rightarrow> AbstractElements result" where
  "Merge_outer [] that_elements copy = Inr copy"
| "Merge_outer (this_element # rest) that_elements copy =
     (if object this_element = None then Merge_outer rest that_elements copy
      else and_then (Merge_inner this_element that_elements copy) (Merge_outer rest that_elements))"

definition Merge :: "AbstractElements \<Rightarrow> AbstractElements \<Rightarrow> AbstractElements returns result" where
  "Merge this that =
     (if Equals this that then Inr ReturnThis
      else and_then (Merge_outer (elements this) (elements that) new_AbstractElements) (\<lambda>copy.
             Inr (ReturnNew (copy\<lparr>next_index := next_index copy mod kMaxTrackedElements\<rparr>))))"

text \<open>
  Modelled from the spec: \<open>AbstractElements::Extend\<close> is defined in the header. "First
  \<open>Kill(object, index)\<close>; then insert \<open>(object, index, value)\<close> at the cursor, advancing
  modulo capacity."
\<close>

definition Extend :: "Config \<Rightarrow> Graph \<Rightarrow> AbstractElements \<Rightarrow> Node \<Rightarrow> Node \<Rightarrow> Node \<Rightarrow> AbstractElements result" where
  "Extend cfg g this obj idx value =
     and_then (Kill cfg g this obj idx) (\<lambda>killed.
     and_then (store_next (deref this killed)
                 \<lparr>object = Some obj, index = Some idx, val = Some value\<rparr>) (\<lambda>that.
       Inr (that\<lparr>next_index := next_index that mod kMaxTrackedElements\<rparr>)))"

section \<open>AbstractField\<close>

text \<open>
  Modelled from the spec: the member \<open>info_for_node_\<close>, its container type and the
  constructors are declared in the header. An \<open>AbstractField\<close> is "a mapping from object
  node to value node (unordered, small; linear scan acceptable)": a list of pairs, walked
  in order by the loops of the source, in which \<open>insert\<close> adds a pair unless its key is
  already there.
\<close>

record AbstractField =
  info_for_node :: "(Node \<times> Node) list"

definition new_AbstractField :: AbstractField where
  "new_AbstractField = \<lparr>info_for_node = []\<rparr>"

definition insert_pair :: "Node \<times> Node \<Rightarrow> AbstractField \<Rightarrow> AbstractField" where
  "insert_pair pair that =
     (if fst pair \<in> fst ` set (info_for_node that) then that
      else that\<lparr>info_for_node := info_for_node that @ [pair]\<rparr>)"

definition new_AbstractField2 :: "Node \<Rightarrow> Node \<Rightarrow> AbstractField" where
  "new_AbstractField2 obj value = insert_pair (obj, value) new_AbstractField"

fun Lookup_pairs :: "Graph \<Rightarrow> Node \<Rightarrow> (Node \<times> Node) list \<Rightarrow> Node option result" where
  "Lookup_pairs g obj [] = Inr None"
| "Lookup_pairs g obj (pair # rest) =
     and_then (returned (MustAlias g obj (fst pair))) (\<lambda>must.
       if must then Inr (Some (snd pair)) else Lookup_pairs g obj rest)"

definition Lookup_field :: "Graph \<Rightarrow> AbstractField \<Rightarrow> Node \<Rightarrow> Node option result" where
  "Lookup_field g this obj = Lookup_pairs g obj (info_for_node this)"

fun Kill_field_copy :: "Graph \<Rightarrow> Node \<Rightarrow> (Node \<times> Node) list \<Rightarrow> AbstractField \<Rightarrow> AbstractField result" where
  "Kill_field_copy g obj [] that = Inr that"
| "Kill_field_copy g obj (pair # rest) that =
     and_then (returned (MayAlias g obj (fst pair))) (\<lambda>may.
       if \<not> may then Kill_field_copy g obj rest (insert_pair pair that)
       else Kill_field_copy g obj rest that)"

fun Kill_field_scan :: "Graph \<Rightarrow> Node \<Rightarrow> AbstractField \<Rightarrow> (Node \<times> Node) list \<Rightarrow> AbstractField returns result" where
  "Kill_field_scan g obj this [] = Inr ReturnThis"
| "Kill_field_scan g obj this (pair # rest) =
     and_then (returned (MayAlias g obj (fst pair))) (\<lambda>may.
       if may
       then and_then (Kill_field_copy g obj (info_for_node this) new_AbstractField) (\<lambda>that.
              Inr (ReturnNew that))
       else Kill_field_scan g obj this rest)"

definition Kill_field :: "Graph \<Rightarrow> AbstractField \<Rightarrow> Node \<Rightarrow> AbstractField returns result" where
  "Kill_field g this obj = Kill_field_scan g obj this (info_for_node this)"

text \<open>
  Modelled from the spec: \<open>AbstractField::Extend\<close>, \<open>Equals\<close> and \<open>Merge\<close> are defined in the
  header. \<open>Extend\<close> "returns a new field with the additional pair; prior entries for the
  same must-alias class are replaced (via a prior Kill)"; \<open>Merge\<close> and \<open>Equals\<close> are
  "pointwise intersection and equality on (object, value) pairs by node identity".
\<close>

definition Extend_field :: "Graph \<Rightarrow> AbstractField \<Rightarrow> Node \<Rightarrow> Node \<Rightarrow> AbstractField result" where
  "Extend_field g this obj value =
     and_then (Kill_field g this obj) (\<lambda>killed.
       Inr (insert_pair (obj, value) (deref this killed)))"

definition Equals_field :: "AbstractField \<Rightarrow> AbstractField \<Rightarrow> bool" where
  "Equals_field this that = (set (info_for_node this) = set (info_for_node that))"

definition Merge_field :: "AbstractField \<Rightarrow> AbstractField \<Rightarrow> AbstractField" where
  "Merge_field this that =
     \<lparr>info_for_node = filter (\<lambda>pair. pair \<in> set (info_for_node that)) (info_for_node this)\<rparr>"

section \<open>AbstractState\<close>

text \<open>
  The members \<open>elements_\<close> (a nullable pointer) and \<open>fields_\<close> (an array of
  \<open>kMaxTrackedFields\<close> nullable pointers, indexed by slot) are \<open>state_elements\<close> and
  \<open>state_fields\<close> here. A slot index past the array is an error in every accessor.
\<close>

record AbstractState =
  state_elements :: "AbstractElements option"
  state_fields :: "nat \<Rightarrow> AbstractField option"

text \<open>
  Modelled from the spec: \<open>empty_state()\<close> is declared in the header; it is "the state
  with no elements and no field facts".
\<close>

definition empty_state :: AbstractState where
  "empty_state = \<lparr>state_elements = None, state_fields = (\<lambda>_. None)\<rparr>"

definition slots :: "nat list" where
  "slots = [0..<kMaxTrackedFields]"

definition Equals_state :: "AbstractState \<Rightarrow> AbstractState \<Rightarrow> bool" where
  "Equals_state this that =
     ((case state_elements this of
         Some this_elements \<Rightarrow>
           (case state_elements that of
              None \<Rightarrow> False
            | Some that_elements \<Rightarrow> Equals that_elements this_elements)
       | None \<Rightarrow> state_elements that = None) \<and>
      list_all (\<lambda>i.
         case state_fields this i of
           Some this_field \<Rightarrow>
             (case state_fields that i of
                None \<Rightarrow> False
              | Some that_field \<Rightarrow> Equals_field that_field this_field)
         | None \<Rightarrow> state_fields that i = None) slots)"

text \<open>One round of the loop over the field slots in \<open>AbstractState::Merge\<close>.\<close>

definition Merge_slot :: "AbstractState \<Rightarrow> nat \<Rightarrow> AbstractState \<Rightarrow> AbstractState" where
  "Merge_slot that i this =
     (case state_fields this i of
        None \<Rightarrow> this
      | Some this_field \<Rightarrow>
          (case state_fields that i of
             Some that_field \<Rightarrow>
               this\<lparr>state_fields := (state_fields this)(i := Some (Merge_field this_field that_field))\<rparr>
           | None \<Rightarrow> this\<lparr>state_fields := (state_fields this)(i := None)\<rparr>))"

text \<open>\<open>AbstractState::Merge\<close> changes \<open>this\<close> in place; the model returns the changed state.\<close>

definition Merge_state :: "AbstractState \<Rightarrow> AbstractState \<Rightarrow> AbstractState result" where
  "Merge_state this that =
     and_then
       (case state_elements this of
          None \<Rightarrow> Inr this
        | Some this_elements \<Rightarrow>
            (case state_elements that of
               Some that_elements \<Rightarrow>
                 and_then (Merge that_elements this_elements) (\<lambda>merged.
                   Inr (this\<lparr>state_elements := Some (deref that_elements merged)\<rparr>))
             | None \<Rightarrow> Inr (this\<lparr>state_elements := None\<rparr>)))
       (\<lambda>this. Inr (fold (Merge_slot that) slots this))"

definition LookupElement :: "Config \<Rightarrow> Graph \<Rightarrow> AbstractState \<Rightarrow> Node \<Rightarrow> Node \<Rightarrow> Node option result" where
  "LookupElement cfg g this obj idx =
     (case state_elements this of
        Some this_elements \<Rightarrow> Lookup cfg g this_elements obj idx
      | None \<Rightarrow> Inr None)"

definition AddElement :: "Config \<Rightarrow> Graph \<Rightarrow> AbstractState \<Rightarrow> Node \<Rightarrow> Node \<Rightarrow> Node \<Rightarrow> AbstractState result" where
  "AddElement cfg g this obj idx value =
     (case state_elements this of
        Some that_elements \<Rightarrow>
          and_then (Extend cfg g that_elements obj idx value) (\<lambda>extended.
            Inr (this\<lparr>state_elements := Some extended\<rparr>))
      | None \<Rightarrow>
          and_then (new_AbstractElements3 obj idx value) (\<lambda>created.
            Inr (this\<lparr>state_elements := Some created\<rparr>)))"

definition KillElement :: "Config \<Rightarrow> Graph \<Rightarrow> AbstractState \<Rightarrow> Node \<Rightarrow> Node \<Rightarrow> AbstractState returns result" where
  "KillElement cfg g this obj idx =
     (case state_elements this of
        Some this_elements \<Rightarrow>
          and_then (Kill cfg g this_elements obj idx) (\<lambda>that_elements.
            case that_elements of
              ReturnNew killed \<Rightarrow> Inr (ReturnNew (this\<lparr>state_elements := Some killed\<rparr>))
            | ReturnThis \<Rightarrow> Inr ReturnThis)
      | None \<Rightarrow> Inr ReturnThis)"

definition AddField :: "Graph \<Rightarrow> AbstractState \<Rightarrow> Node \<Rightarrow> nat \<Rightarrow> Node \<Rightarrow> AbstractState result" where
  "AddField g this obj i value =
     (if \<not> i < kMaxTrackedFields then Inl OutOfBounds
      else case state_fields this i of
        Some that_field \<Rightarrow>
          and_then (Extend_field g that_field obj value) (\<lambda>extended.
            Inr (this\<lparr>state_fields := (state_fields this)(i := Some extended)\<rparr>))
      | None \<Rightarrow> Inr (this\<lparr>state_fields := (state_fields this)(i := Some (new_AbstractField2 obj value))\<rparr>))"

definition KillField :: "Graph \<Rightarrow> AbstractState \<Rightarrow> Node \<Rightarrow> nat \<Rightarrow> AbstractState returns result" where
  "KillField g this obj i =
     (if \<not> i < kMaxTrackedFields then Inl OutOfBounds
      else case state_fields this i of
        Some this_field \<Rightarrow>
          and_then (Kill_field g this_field obj) (\<lambda>killed.
            case killed of
              ReturnNew that_field \<Rightarrow>
                Inr (ReturnNew (this\<lparr>state_fields := (state_fields this)(i := Some that_field)\<rparr>))
            | ReturnThis \<Rightarrow> Inr ReturnThis)
      | None \<Rightarrow> Inr ReturnThis)"

definition LookupField :: "Graph \<Rightarrow> AbstractState \<Rightarrow> Node \<Rightarrow> nat \<Rightarrow> Node option result" where
  "LookupField g this obj i =
     (if \<not> i < kMaxTrackedFields then Inl OutOfBounds
      else case state_fields this i of
        Some this_field \<Rightarrow> Lookup_field g this_field obj
      | None \<Rightarrow> Inr None)"


section \<open>The state of every effect node\<close>

text \<open>
  \<open>AbstractStateForEffectNodes\<close> is a vector of nullable state pointers indexed by node id.
\<close>

type_synonym AbstractStateForEffectNodes = "AbstractState option list"

definition Get :: "AbstractStateForEffectNodes \<Rightarrow> Node \<Rightarrow> AbstractState option" where
  "Get info node = (if node < length info then info ! node else None)"

definition Set :: "AbstractStateForEffectNodes \<Rightarrow> Node \<Rightarrow> AbstractState \<Rightarrow> AbstractStateForEffectNodes" where
  "Set info node state =
     (let resized = (if node \<ge> length info
                     then info @ replicate (node + 1 - length info) None else info)
      in resized[node := Some state])"

section \<open>The reducer\<close>

datatype Reduction = NoChange | Changed Node | Replace Node

text \<open>
  \<open>UpdateState\<close> first compares the two pointers: \<open>if (state != original)\<close>. A state that
  is its own original \<open>Equals\<close> it (lemma \<open>Equals_state_refl\<close> below), so in the value
  model the test of \<open>Equals\<close> alone takes the same branch.
\<close>

definition UpdateState :: "AbstractStateForEffectNodes \<Rightarrow> Node \<Rightarrow> AbstractState \<Rightarrow> Reduction \<times> AbstractStateForEffectNodes" where
  "UpdateState node_states node state =
     (case Get node_states node of
        None \<Rightarrow> (Changed node, Set node_states node state)
      | Some original \<Rightarrow>
          if \<not> Equals_state state original
          then (Changed node, Set node_states node state)
          else (NoChange, node_states))"

text \<open>
  \<open>FieldIndexOf\<close>: the \<open>switch\<close> either returns (\<open>Some\<close>) or breaks (\<open>None\<close>) and the
  function goes on to the offset. \<open>int\<close> division truncates towards zero.
\<close>

definition FieldIndexOf :: "Config \<Rightarrow> FieldAccess \<Rightarrow> int result" where
  "FieldIndexOf cfg access =
     (let rep = field_representation access in
      and_then
        (case rep of
           kNone \<Rightarrow> Inl Unreachable
         | kBit \<Rightarrow> Inl Unreachable
         | kWord32 \<Rightarrow> if rep \<noteq> PointerRepresentation cfg then Inr (Some (- 1)) else Inr None
         | kWord64 \<Rightarrow> if rep \<noteq> PointerRepresentation cfg then Inr (Some (- 1)) else Inr None
         | kWord8 \<Rightarrow> Inr (Some (- 1))
         | kWord16 \<Rightarrow> Inr (Some (- 1))
         | kFloat32 \<Rightarrow> Inr (Some (- 1))
         | kFloat64 \<Rightarrow> Inr (Some (- 1))
         | kSimd128 \<Rightarrow> Inr (Some (- 1))
         | kTaggedSigned \<Rightarrow> Inr None
         | kTaggedPointer \<Rightarrow> Inr None
         | kTagged \<Rightarrow> Inr None)
        (\<lambda>early. case early of
           Some r \<Rightarrow> Inr r
         | None \<Rightarrow>
             and_then (DCHECK cfg (kTaggedBase = base_is_tagged access)) (\<lambda>_.
             and_then (DCHECK cfg (0 = offset access smod kPointerSize cfg)) (\<lambda>_.
               let field_index = offset access sdiv kPointerSize cfg in
               if field_index \<ge> int kMaxTrackedFields then Inr (- 1)
               else Inr field_index))))"

definition ReduceStoreField :: "Config \<Rightarrow> Graph \<Rightarrow> AbstractStateForEffectNodes \<Rightarrow> Node \<Rightarrow> (Reduction \<times> AbstractStateForEffectNodes) result" where
  "ReduceStoreField cfg g node_states node =
     (let access = FieldAccessOf (op (g node));
          obj = GetValueInput (g node) 0;
          new_value = GetValueInput (g node) 1;
          effect = GetEffectInput (g node) 0
      in case Get node_states effect of
        None \<Rightarrow> Inr (NoChange, node_states)
      | Some state \<Rightarrow>
          and_then (FieldIndexOf cfg access) (\<lambda>field_index.
            if field_index \<ge> 0
            then and_then (LookupField g state obj (nat field_index)) (\<lambda>old_value.
                   if old_value = Some new_value then Inr (Replace effect, node_states)
                   else
                     and_then (KillField g state obj (nat field_index)) (\<lambda>killed.
                     and_then (AddField g (deref state killed) obj (nat field_index) new_value)
                       (\<lambda>state. Inr (UpdateState node_states node state))))
            else Inr (UpdateState node_states node empty_state)))"

definition ReduceStoreElement :: "Config \<Rightarrow> Graph \<Rightarrow> AbstractStateForEffectNodes \<Rightarrow> Node \<Rightarrow> (Reduction \<times> AbstractStateForEffectNodes) result" where
  "ReduceStoreElement cfg g node_states node =
     (let access = ElementAccessOf (op (g node));
          obj = GetValueInput (g node) 0;
          idx = GetValueInput (g node) 1;
          new_value = GetValueInput (g node) 2;
          effect = GetEffectInput (g node) 0
      in case Get node_states effect of
        None \<Rightarrow> Inr (NoChange, node_states)
      | Some state \<Rightarrow>
          and_then (LookupElement cfg g state obj idx) (\<lambda>old_value.
            if old_value = Some new_value then Inr (Replace effect, node_states)
            else
              and_then (KillElement cfg g state obj idx) (\<lambda>killed.
              let state = deref state killed in
              and_then
                (case element_representation access of
                   kNone \<Rightarrow> Inl Unreachable
                 | kBit \<Rightarrow> Inl Unreachable
                 | kWord8 \<Rightarrow> Inr state
                 | kWord16 \<Rightarrow> Inr state
                 | kWord32 \<Rightarrow> Inr state
                 | kWord64 \<Rightarrow> Inr state
                 | kFloat32 \<Rightarrow> Inr state
                 | kFloat64 \<Rightarrow> AddElement cfg g state obj idx new_value
                 | kSimd128 \<Rightarrow> AddElement cfg g state obj idx new_value
                 | kTaggedSigned \<Rightarrow> AddElement cfg g state obj idx new_value
                 | kTaggedPointer \<Rightarrow> AddElement cfg g state obj idx new_value
                 | kTagged \<Rightarrow> AddElement cfg g state obj idx new_value)
                (\<lambda>state. Inr (UpdateState node_states node state)))))"

definition ReduceStoreTypedElement :: "Graph \<Rightarrow> AbstractStateForEffectNodes \<Rightarrow> Node \<Rightarrow> (Reduction \<times> AbstractStateForEffectNodes) result" where
  "ReduceStoreTypedElement g node_states node =
     (let effect = GetEffectInput (g node) 0
      in case Get node_states effect of
        None \<Rightarrow> Inr (NoChange, node_states)
      | Some state \<Rightarrow> Inr (UpdateState node_states node state))"

definition ReduceStart :: "AbstractStateForEffectNodes \<Rightarrow> Node \<Rightarrow> (Reduction \<times> AbstractStateForEffectNodes) result" where
  "ReduceStart node_states node = Inr (UpdateState node_states node empty_state)"

definition ReduceOtherNode :: "Config \<Rightarrow> Graph \<Rightarrow> AbstractStateForEffectNodes \<Rightarrow> Node \<Rightarrow> (Reduction \<times> AbstractStateForEffectNodes) result" where
  "ReduceOtherNode cfg g node_states node =
     (if EffectInputCount (op (g node)) = 1
      then
        if EffectOutputCount (op (g node)) = 1
        then
          (let effect = GetEffectInput (g node) 0
           in case Get node_states effect of
             None \<Rightarrow> Inr (NoChange, node_states)
           | Some state \<Rightarrow>
               Inr (UpdateState node_states node
                      (if \<not> kNoWrite (op (g node)) then empty_state else state)))
        else Inr (NoChange, node_states)
      else
        and_then (DCHECK cfg (0 = EffectInputCount (op (g node)))) (\<lambda>_.
        and_then (DCHECK cfg (0 = EffectOutputCount (op (g node)))) (\<lambda>_.
          Inr (NoChange, node_states))))"

section \<open>The state at a loop header\<close>

text \<open>
  What the \<open>switch\<close> in \<open>ComputeLoopState\<close> does with a node that may write: it leaves the
  \<open>switch\<close> with a state (\<open>Break\<close>), or the whole function returns (\<open>Return\<close>).
\<close>

datatype 'a flow = Break 'a | Return 'a

definition ComputeLoopState_switch :: "Config \<Rightarrow> Graph \<Rightarrow> Node \<Rightarrow> AbstractState \<Rightarrow> AbstractState flow result" where
  "ComputeLoopState_switch cfg g current state =
     (case opcode (g current) of
        kEnsureWritableFastElements \<Rightarrow>
          (let obj = GetValueInput (g current) 0 in
           and_then (KillField g state obj 2) (\<lambda>killed. Inr (Break (deref state killed))))
      | kMaybeGrowFastElements \<Rightarrow>
          (let flags = GrowFastElementsFlagsOf (op (g current));
               obj = GetValueInput (g current) 0 in
           and_then (KillField g state obj 2) (\<lambda>killed.
             let state = deref state killed in
             if kArrayObject flags
             then and_then (KillField g state obj 3) (\<lambda>killed. Inr (Break (deref state killed)))
             else Inr (Break state)))
      | kTransitionElementsKind \<Rightarrow>
          (let obj = GetValueInput (g current) 0 in
           and_then (KillField g state obj 0) (\<lambda>killed.
             let state = deref state killed in
             and_then (KillField g state obj 2) (\<lambda>killed. Inr (Break (deref state killed)))))
      | kStoreField \<Rightarrow>
          (let access = FieldAccessOf (op (g current));
               obj = GetValueInput (g current) 0 in
           and_then (FieldIndexOf cfg access) (\<lambda>field_index.
             if field_index < 0 then Inr (Return empty_state)
             else and_then (KillField g state obj (nat field_index)) (\<lambda>killed.
                    Inr (Break (deref state killed)))))
      | kStoreElement \<Rightarrow>
          (let obj = GetValueInput (g current) 0;
               idx = GetValueInput (g current) 1 in
           and_then (KillElement cfg g state obj idx) (\<lambda>killed. Inr (Break (deref state killed))))
      | kStoreBuffer \<Rightarrow> Inr (Break state)
      | kStoreTypedElement \<Rightarrow> Inr (Break state)
      | _ \<Rightarrow> Inr (Return empty_state))"

definition effect_inputs :: "Graph \<Rightarrow> Node \<Rightarrow> Node list" where
  "effect_inputs g current =
     map (GetEffectInput (g current)) [0..<nat (EffectInputCount (op (g current)))]"

text \<open>
  The \<open>while (!queue.empty())\<close> loop on the queue, the visited set and the state. A loop
  that does not end has the value \<open>None\<close>.
\<close>

partial_function (option) ComputeLoopState_while :: "Config \<Rightarrow> Graph \<Rightarrow> Node list \<Rightarrow> Node set \<Rightarrow> AbstractState \<Rightarrow> AbstractState result option" where
  "ComputeLoopState_while cfg g queue visited state =
     (case queue of
        [] \<Rightarrow> Some (Inr state)
      | current # queue \<Rightarrow>
          if current \<notin> visited
          then
            (case (if \<not> kNoWrite (op (g current))
                   then ComputeLoopState_switch cfg g current state
                   else Inr (Break state)) of
               Inl e \<Rightarrow> Some (Inl e)
             | Inr (Return state) \<Rightarrow> Some (Inr state)
             | Inr (Break state) \<Rightarrow>
                 ComputeLoopState_while cfg g (queue @ effect_inputs g current)
                   (insert current visited) state)
          else ComputeLoopState_while cfg g queue visited state)"

declare ComputeLoopState_while.simps [code]

definition ComputeLoopState :: "Config \<Rightarrow> Graph \<Rightarrow> Node \<Rightarrow> AbstractState \<Rightarrow> AbstractState result" where
  "ComputeLoopState cfg g node state =
     (let control = GetControlInput (g node);
          queue = map (InputAt (g node)) [1..<nat (InputCount (g control))]
      in case ComputeLoopState_while cfg g queue {node} state of
        None \<Rightarrow> Inl Diverges
      | Some r \<Rightarrow> r)"

fun Merge_inputs :: "AbstractStateForEffectNodes \<Rightarrow> Node list \<Rightarrow> AbstractState \<Rightarrow> AbstractState result" where
  "Merge_inputs node_states [] state = Inr state"
| "Merge_inputs node_states (input # rest) state =
     (case Get node_states input of
        None \<Rightarrow> Inl NullDeref
      | Some that \<Rightarrow> and_then (Merge_state state that) (Merge_inputs node_states rest))"

definition ReduceEffectPhi :: "Config \<Rightarrow> Graph \<Rightarrow> AbstractStateForEffectNodes \<Rightarrow> Node \<Rightarrow> (Reduction \<times> AbstractStateForEffectNodes) result" where
  "ReduceEffectPhi cfg g node_states node =
     (let effect0 = GetEffectInput (g node) 0;
          control = GetControlInput (g node)
      in case Get node_states effect0 of
        None \<Rightarrow> Inr (NoChange, node_states)
      | Some state0 \<Rightarrow>
          if opcode (g control) = kLoop
          then and_then (ComputeLoopState cfg g node state0) (\<lambda>state.
                 Inr (UpdateState node_states node state))
          else
            and_then (DCHECK cfg (kMerge = opcode (g control))) (\<lambda>_.
              let inputs = map (GetEffectInput (g node))
                             [1..<nat (EffectInputCount (op (g node)))]
              in if list_ex (\<lambda>effect. Get node_states effect = None) inputs
                 then Inr (NoChange, node_states)
                 else and_then (Merge_inputs node_states inputs state0) (\<lambda>state.
                        Inr (UpdateState node_states node state))))"

section \<open>Example graphs\<close>

text \<open>
  Small graphs for the concrete instances below. \<open>node_of\<close> builds a node from its opcode,
  operator, type and its value, effect and control inputs, in the input order of the IR
  (value inputs, then effect inputs, then control inputs).
\<close>

definition op_of :: "int \<Rightarrow> int \<Rightarrow> int \<Rightarrow> bool \<Rightarrow> MachineRepresentation \<Rightarrow> int \<Rightarrow> Operator" where
  "op_of values effects_in effects_out no_write rep off =
     \<lparr>ValueInputCount = values, EffectInputCount = effects_in, EffectOutputCount = effects_out,
      kNoWrite = no_write,
      FieldAccessOf = \<lparr>base_is_tagged = kTaggedBase, offset = off, field_representation = rep\<rparr>,
      ElementAccessOf = \<lparr>element_representation = rep\<rparr>,
      GrowFastElementsFlagsOf = \<lparr>kDoubleElements = False, kArrayObject = False\<rparr>,
      ElementsTransitionOf = kFastTransition\<rparr>"

definition input_of :: "Node list \<Rightarrow> nat \<Rightarrow> Node" where
  "input_of xs i = (if i < length xs then xs ! i else 0)"

definition node_of :: "IrOpcode \<Rightarrow> Operator \<Rightarrow> Type \<Rightarrow> Node list \<Rightarrow> Node list \<Rightarrow> Node list \<Rightarrow> NodeData" where
  "node_of opc oper ty values effects controls =
     \<lparr>opcode = opc, op = oper, GetType = ty,
      InputAt = input_of (values @ effects @ controls),
      InputCount = int (length (values @ effects @ controls)),
      GetValueInput = input_of values,
      GetEffectInput = input_of effects,
      GetControlInput = input_of controls 0,
      IsDead = False\<rparr>"

definition pure_op :: Operator where
  "pure_op = op_of 0 0 0 True kTagged 0"

text \<open>
  Node 4 is a \<open>FinishRegion\<close> whose first input is the \<open>Allocate\<close> node 2; every other node is
  a \<open>Parameter\<close>. All nodes have the same type.
\<close>

definition region_graph :: Graph where
  "region_graph =
     (\<lambda>n. node_of kParameter pure_op {0} [] [] [])
       (4 := node_of kFinishRegion pure_op {0} [2] [] [],
        2 := node_of kAllocate pure_op {0} [] [] [])"

section \<open>Stripping FinishRegion wrappers\<close>

text \<open>
  \<open>strips_to g a b\<close>: following first inputs from \<open>a\<close> through \<open>FinishRegion\<close> nodes leads
  to \<open>b\<close> in one step or more.
\<close>

inductive strips_to :: "Graph \<Rightarrow> Node \<Rightarrow> Node \<Rightarrow> bool" for g :: Graph where
  strips_once: "opcode (g a) = kFinishRegion \<Longrightarrow> InputAt (g a) 0 = b \<Longrightarrow> strips_to g a b"
| strips_more: "opcode (g a) = kFinishRegion \<Longrightarrow> strips_to g (InputAt (g a) 0) b \<Longrightarrow> strips_to g a b"

text \<open>
  \<open>same_after_stripping g a b\<close>: the two handles are identical, or one of them is an
  \<open>Allocate\<close> node that the other one strips to.
\<close>

definition same_after_stripping :: "Graph \<Rightarrow> Node \<Rightarrow> Node \<Rightarrow> bool" where
  "same_after_stripping g a b =
     (a = b \<or> (opcode (g b) = kAllocate \<and> strips_to g a b)
            \<or> (opcode (g a) = kAllocate \<and> strips_to g b a))"

section \<open>Example configurations and abstract values\<close>

definition debug_config :: Config where
  "debug_config = \<lparr>DEBUG = True, kPointerSize = 8, PointerRepresentation = kWord64\<rparr>"

definition release_config :: Config where
  "release_config = \<lparr>DEBUG = False, kPointerSize = 8, PointerRepresentation = kWord64\<rparr>"

definition fact :: "Node \<Rightarrow> Node \<Rightarrow> Node \<Rightarrow> Element" where
  "fact obj idx value = \<lparr>object = Some obj, index = Some idx, val = Some value\<rparr>"

text \<open>A ring that holds the given facts in its first entries.\<close>

definition ring_of :: "Element list \<Rightarrow> AbstractElements" where
  "ring_of es =
     \<lparr>elements = es @ replicate (kMaxTrackedElements - length es) empty_Element,
      next_index = length es mod kMaxTrackedElements\<rparr>"

definition field_of :: "(Node \<times> Node) list \<Rightarrow> AbstractField" where
  "field_of pairs = \<lparr>info_for_node = pairs\<rparr>"

text \<open>The state that knows the given pairs in slot \<open>i\<close> and nothing else.\<close>

definition state_of_field :: "nat \<Rightarrow> (Node \<times> Node) list \<Rightarrow> AbstractState" where
  "state_of_field i pairs =
     empty_state\<lparr>state_fields := (state_fields empty_state)(i := Some (field_of pairs))\<rparr>"

definition state_of_elements :: "Element list \<Rightarrow> AbstractState" where
  "state_of_elements es = empty_state\<lparr>state_elements := Some (ring_of es)\<rparr>"

text \<open>
  A graph in which every node has an operator with the given numbers of effect inputs and
  outputs and no other opcode than \<open>kOtherOpcode 0\<close>.
\<close>

definition arity_graph :: "int \<Rightarrow> int \<Rightarrow> Graph" where
  "arity_graph effects_in effects_out =
     (\<lambda>n. node_of (kOtherOpcode 0) (op_of 0 effects_in effects_out True kTagged 0) {0} [] [] [])"

text \<open>
  Node 8 is a \<open>FinishRegion\<close> around node 6, a \<open>FinishRegion\<close> around the \<open>Allocate\<close> node 2.
  The types of the two wrappers both overlap the type of node 2 and are disjoint from each
  other.
\<close>

definition nested_region_graph :: Graph where
  "nested_region_graph =
     (\<lambda>n. node_of kParameter pure_op {1, 2} [] [] [])
       (8 := node_of kFinishRegion pure_op {1} [6] [] [],
        6 := node_of kFinishRegion pure_op {2} [2] [] [],
        2 := node_of kAllocate pure_op {1, 2} [] [] [])"

text \<open>
  Node 0 is \<open>Start\<close>. Nodes 2 and 3 are two \<open>StoreField\<close> nodes that store node 11 to the
  same field (representation \<open>rep\<close>, byte offset 40) of node 10; node 2 follows node 0 on
  the effect chain and node 3 follows node 2.
\<close>

definition two_stores_graph :: "MachineRepresentation \<Rightarrow> Graph" where
  "two_stores_graph rep =
     (\<lambda>n. node_of kParameter pure_op {0} [] [] [])
       (0 := node_of kStart (op_of 0 0 1 True kTagged 0) {0} [] [] [],
        2 := node_of kStoreField (op_of 2 1 1 False rep 40) {0} [10, 11] [0] [],
        3 := node_of kStoreField (op_of 2 1 1 False rep 40) {0} [10, 11] [2] [])"

section \<open>Invariants and facts of abstract values\<close>

text \<open>
  The invariant of an elements ring: the array has \<open>kMaxTrackedElements\<close> entries, the
  cursor is inside it, and "any non-empty entry has non-null index and value".
\<close>

definition wf_elements :: "AbstractElements \<Rightarrow> bool" where
  "wf_elements ring =
     (length (elements ring) = kMaxTrackedElements \<and>
      next_index ring < kMaxTrackedElements \<and>
      list_all (\<lambda>e. object e = None \<or> (index e \<noteq> None \<and> val e \<noteq> None)) (elements ring))"

text \<open>
  The alias queries that a lookup or a kill for \<open>(obj, idx)\<close> can make against the
  non-empty entries of a ring all return.
\<close>

definition alias_queries_return :: "Graph \<Rightarrow> Node \<Rightarrow> Node \<Rightarrow> AbstractElements \<Rightarrow> bool" where
  "alias_queries_return g obj idx ring =
     list_all (\<lambda>e. case object e of
                      None \<Rightarrow> True
                    | Some eo \<Rightarrow>
                        QueryAlias g obj eo \<noteq> None \<and>
                        (case index e of None \<Rightarrow> True | Some ei \<Rightarrow> QueryAlias g idx ei \<noteq> None))
       (elements ring)"

text \<open>An entry that a kill for \<open>(obj, idx)\<close> copies: its object or its index cannot alias.\<close>

definition survives :: "Graph \<Rightarrow> Node \<Rightarrow> Node \<Rightarrow> Element \<Rightarrow> bool" where
  "survives g obj idx e =
     (case object e of
        None \<Rightarrow> False
      | Some eo \<Rightarrow>
          QueryAlias g obj eo = Some kNoAlias \<or>
          (case index e of None \<Rightarrow> False | Some ei \<Rightarrow> QueryAlias g idx ei = Some kNoAlias))"

text \<open>The state holds the element fact \<open>e\<close> in its ring.\<close>

definition has_fact :: "AbstractState \<Rightarrow> Element \<Rightarrow> bool" where
  "has_fact state e =
     (case state_elements state of None \<Rightarrow> False | Some ring \<Rightarrow> e \<in> set (elements ring))"

text \<open>
  Node 0 is \<open>Start\<close>. Node 2 is a \<open>StoreElement\<close> that stores node 11 at index 12 of node 10
  with the machine representation \<open>rep\<close>; it follows node 0 on the effect chain.
\<close>

definition store_element_graph :: "MachineRepresentation \<Rightarrow> Graph" where
  "store_element_graph rep =
     (\<lambda>n. node_of kParameter pure_op {0} [] [] [])
       (0 := node_of kStart (op_of 0 0 1 True kTagged 0) {0} [] [] [],
        2 := node_of kStoreElement (op_of 3 1 1 False rep 0) {0} [10, 12, 11] [0] [])"

text \<open>
  A ring under construction: the facts \<open>xs\<close> stored so far in the first entries of an array
  of \<open>n\<close> entries, the cursor behind them.
\<close>

definition filled :: "nat \<Rightarrow> Element list \<Rightarrow> AbstractElements" where
  "filled n xs =
     \<lparr>elements = xs @ replicate (n - length xs) empty_Element, next_index = length xs\<rparr>"

text \<open>The non-empty entries of a ring, and the invariant that no fact is held twice.\<close>

definition facts :: "AbstractElements \<Rightarrow> Element set" where
  "facts ring = {e \<in> set (elements ring). object e \<noteq> None}"

definition distinct_facts :: "AbstractElements \<Rightarrow> bool" where
  "distinct_facts ring =
     (length (elements ring) = kMaxTrackedElements \<and>
      distinct (filter (\<lambda>e. object e \<noteq> None) (elements ring)))"

text \<open>Two states that agree on one element fact and on one field fact of slot 5.\<close>

definition merge_left :: AbstractState where
  "merge_left =
     \<lparr>state_elements = Some (ring_of [fact 10 12 13, fact 10 14 15]),
      state_fields = (\<lambda>_. None)(5 := Some (field_of [(10, 11), (20, 21)]),
                                  7 := Some (field_of [(10, 30)]))\<rparr>"

definition merge_right :: AbstractState where
  "merge_right =
     \<lparr>state_elements = Some (ring_of [fact 10 14 16, fact 10 12 13]),
      state_fields = (\<lambda>_. None)(5 := Some (field_of [(20, 21), (10, 12)]))\<rparr>"

section \<open>The body of a loop\<close>

text \<open>
  The nodes that the scan of \<open>ComputeLoopState\<close> reaches: the inputs 1, 2, ... of the loop
  phi that the scan starts from, and the effect inputs of every node reached, the phi
  itself apart.
\<close>

inductive_set loop_body :: "Graph \<Rightarrow> Node \<Rightarrow> Node set" for g :: Graph and node :: Node where
  back_edge: "i \<in> set [1..<nat (InputCount (g (GetControlInput (g node))))] \<Longrightarrow>
              InputAt (g node) i \<noteq> node \<Longrightarrow> InputAt (g node) i \<in> loop_body g node"
| effect_input: "n \<in> loop_body g node \<Longrightarrow> m \<in> set (effect_inputs g n) \<Longrightarrow> m \<noteq> node \<Longrightarrow>
                 m \<in> loop_body g node"

text \<open>
  The invariant of the \<open>while\<close> loop when the only writing node of the body is \<open>store\<close>:
  the phi is visited; visited and queued nodes are the phi or nodes of the body; the start
  nodes and the effect inputs of every visited node of the body are visited or queued; and
  the state is the entry state until \<open>store\<close> is visited and the killed state afterwards.
\<close>

definition scan_invariant :: "Graph \<Rightarrow> Node \<Rightarrow> Node \<Rightarrow> AbstractState \<Rightarrow> AbstractState \<Rightarrow> Node list \<Rightarrow> Node set \<Rightarrow> AbstractState \<Rightarrow> bool" where
  "scan_invariant g node store entry killed queue visited state =
     (node \<in> visited \<and>
      visited \<subseteq> insert node (loop_body g node) \<and>
      set queue \<subseteq> insert node (loop_body g node) \<and>
      (\<forall>i \<in> set [1..<nat (InputCount (g (GetControlInput (g node))))].
         InputAt (g node) i \<in> visited \<union> set queue) \<and>
      (\<forall>n \<in> visited. n \<noteq> node \<longrightarrow> set (effect_inputs g n) \<subseteq> visited \<union> set queue) \<and>
      state = (if store \<in> visited then killed else entry))"

text \<open>
  A loop: node 20 is the \<open>Loop\<close> control node with two inputs, node 2 its effect phi with
  the entry effect 0 and the back edge 4, node 3 a node that does not write, after the phi,
  and node 4 a \<open>StoreField\<close> to the tagged field at offset 40 of the \<open>Allocate\<close> node 10,
  after node 3.
\<close>

definition loop_graph :: Graph where
  "loop_graph =
     (\<lambda>n. node_of kParameter pure_op {0} [] [] [])
       (0 := node_of kStart (op_of 0 0 1 True kTagged 0) {0} [] [] [],
        10 := node_of kAllocate pure_op {0} [] [] [],
        20 := node_of kLoop pure_op {0} [] [] [0, 4],
        2 := node_of kEffectPhi (op_of 0 2 1 True kTagged 0) {0} [] [0, 4] [20],
        3 := node_of kLoadField (op_of 1 1 1 True kTagged 40) {0} [10] [2] [],
        4 := node_of kStoreField (op_of 2 1 1 False kTagged 40) {0} [10, 11] [3] [])"

text \<open>
  The state at the loop entry: slot 5 is known for nodes 10 and 12, slot 7 for node 10,
  and one element of node 10.
\<close>

definition loop_entry_state :: AbstractState where
  "loop_entry_state =
     \<lparr>state_elements = Some (ring_of [fact 10 14 15]),
      state_fields = (\<lambda>_. None)(5 := Some (field_of [(10, 9), (12, 13)]),
                                  7 := Some (field_of [(10, 30)]))\<rparr>"

text \<open>The invariant of a ring that the operations of the pass keep.\<close>

definition ring_invariant :: "AbstractElements \<Rightarrow> bool" where
  "ring_invariant ring = (wf_elements ring \<and> distinct_facts ring)"

section \<open>The alias oracle: what it answers\<close>

lemma and_then_Inr [simp]: "and_then (Inr x) f = f x"
  by (simp add: and_then_def)

lemma and_then_Inl [simp]: "and_then (Inl e) f = Inl e"
  by (simp add: and_then_def)

lemma and_then_eq_Inr:
  "and_then r f = Inr y \<longleftrightarrow> (\<exists>x. r = Inr x \<and> f x = Inr y)"
  by (cases r) simp_all

lemma returned_eq_Inr [simp]: "returned r = Inr x \<longleftrightarrow> r = Some x"
  by (cases r) (simp_all add: returned_def)

lemma returned_Some [simp]: "returned (Some x) = Inr x"
  by (simp add: returned_def)

lemma DCHECK_True [simp]: "DCHECK cfg True = Inr ()"
  by (simp add: DCHECK_def)

lemma QueryAlias_same: "QueryAlias g a a = Some kMustAlias"
  by (subst QueryAlias.simps) simp

lemma QueryAlias_disjoint:
  "a \<noteq> b \<Longrightarrow> \<not> Maybe (GetType (g a)) (GetType (g b)) \<Longrightarrow> QueryAlias g a b = Some kNoAlias"
  by (subst QueryAlias.simps) simp

lemma strips_to_FinishRegion: "strips_to g a b \<Longrightarrow> opcode (g a) = kFinishRegion"
  by (induction rule: strips_to.induct) auto

lemma QueryAlias_must_cases:
  assumes "QueryAlias g a b = Some r"
  shows "r = kMustAlias \<longrightarrow> same_after_stripping g a b"
proof (rule QueryAlias.raw_induct
    [where P = "\<lambda>g a b r. r = kMustAlias \<longrightarrow> same_after_stripping g a b", OF _ assms],
    goal_cases)
  case (1 Q g a b r)
  show ?case
  proof (cases "a = b")
    case True
    then show ?thesis by (simp add: same_after_stripping_def)
  next
    case ne: False
    show ?thesis
    proof (cases "opcode (g b) = kAllocate \<and> opcode (g a) = kFinishRegion \<and>
                  Maybe (GetType (g a)) (GetType (g b))")
      case True
      with ne 1(2) have rec: "Q g (InputAt (g a) 0) b = Some r" by simp
      from 1(1)[OF rec] True show ?thesis
        unfolding same_after_stripping_def
        by (auto intro: strips_to.intros dest: strips_to_FinishRegion)
    next
      case nota: False
      show ?thesis
      proof (cases "opcode (g a) = kAllocate \<and> opcode (g b) = kFinishRegion \<and>
                    Maybe (GetType (g a)) (GetType (g b))")
        case True
        with ne 1(2) have rec: "Q g a (InputAt (g b) 0) = Some r" by simp
        from 1(1)[OF rec] True show ?thesis
          unfolding same_after_stripping_def
          by (auto intro: strips_to.intros dest: strips_to_FinishRegion)
      next
        case False
        with ne nota 1(2) show ?thesis by (auto split: if_splits)
      qed
    qed
  qed
qed

lemma MustAlias_True_iff:
  "MustAlias g a b = Some True \<longleftrightarrow> QueryAlias g a b = Some kMustAlias"
  by (auto simp: MustAlias_def)

lemma MayAlias_False_iff:
  "MayAlias g a b = Some False \<longleftrightarrow> QueryAlias g a b = Some kNoAlias"
  by (auto simp: MayAlias_def)

lemma region_graph_4 [simp]:
  "region_graph 4 = node_of kFinishRegion pure_op {0} [2] [] []"
  by (simp add: region_graph_def)

lemma region_graph_2 [simp]: "region_graph 2 = node_of kAllocate pure_op {0} [] [] []"
  by (simp add: region_graph_def)

lemma region_graph_3 [simp]: "region_graph 3 = node_of kParameter pure_op {0} [] [] []"
  by (simp add: region_graph_def)

lemma region_alias_4_2: "QueryAlias region_graph 4 2 = Some kMustAlias"
  by (subst QueryAlias.simps) (simp add: node_of_def Maybe_def input_of_def QueryAlias_same)

lemma region_alias_2_4: "QueryAlias region_graph 2 4 = Some kMustAlias"
  by (subst QueryAlias.simps) (simp add: node_of_def Maybe_def input_of_def QueryAlias_same)

lemma region_alias_4_3: "QueryAlias region_graph 4 3 = Some kMayAlias"
  by (subst QueryAlias.simps) (simp add: node_of_def Maybe_def)

lemma region_alias_3_4: "QueryAlias region_graph 3 4 = Some kMayAlias"
  by (subst QueryAlias.simps) (simp add: node_of_def Maybe_def)

lemma region_alias_2_3: "QueryAlias region_graph 2 3 = Some kNoAlias"
  by (subst QueryAlias.simps) (simp add: node_of_def Maybe_def)

lemma region_alias_3_2: "QueryAlias region_graph 3 2 = Some kNoAlias"
  by (subst QueryAlias.simps) (simp add: node_of_def Maybe_def)

text \<open>
  C4, as the claim states it, fails: with a \<open>Parameter\<close> on the other side the
  \<open>FinishRegion\<close> node 4 is not stripped. The query answers may-alias, while the query on
  its first input, the \<open>Allocate\<close> node 2, answers no-alias.
\<close>

theorem C4_counterexample:
  "opcode (region_graph 4) = kFinishRegion \<and>
   QueryAlias region_graph 4 3 = Some kMayAlias \<and>
   QueryAlias region_graph (InputAt (region_graph 4) 0) 3 = Some kNoAlias"
  by (simp add: region_alias_4_3 region_alias_2_3) (simp add: node_of_def input_of_def region_alias_2_3)

text \<open>
  C4, amended: \<open>QueryAlias\<close> strips a \<open>FinishRegion\<close> operand to its first input and asks
  again only when the two nodes differ, their types may overlap and the other operand is an
  \<open>Allocate\<close> node. With any other opcode on the other side a \<open>FinishRegion\<close> operand is not
  stripped: the answer is no-alias when the types are disjoint and may-alias otherwise.
\<close>

theorem C4_QueryAlias_strips_FinishRegion:
  "(a \<noteq> b \<and> Maybe (GetType (g a)) (GetType (g b)) \<and>
      opcode (g a) = kFinishRegion \<and> opcode (g b) = kAllocate
      \<longrightarrow> QueryAlias g a b = QueryAlias g (InputAt (g a) 0) b) \<and>
   (a \<noteq> b \<and> Maybe (GetType (g a)) (GetType (g b)) \<and>
      opcode (g a) = kAllocate \<and> opcode (g b) = kFinishRegion
      \<longrightarrow> QueryAlias g a b = QueryAlias g a (InputAt (g b) 0)) \<and>
   (a \<noteq> b \<and> opcode (g a) = kFinishRegion \<and> opcode (g b) \<noteq> kAllocate
      \<longrightarrow> QueryAlias g a b =
            Some (if Maybe (GetType (g a)) (GetType (g b)) then kMayAlias else kNoAlias)) \<and>
   (a \<noteq> b \<and> opcode (g b) = kFinishRegion \<and> opcode (g a) \<noteq> kAllocate
      \<longrightarrow> QueryAlias g a b =
            Some (if Maybe (GetType (g a)) (GetType (g b)) then kMayAlias else kNoAlias))"
proof (intro conjI impI)
  assume "a \<noteq> b \<and> Maybe (GetType (g a)) (GetType (g b)) \<and>
          opcode (g a) = kFinishRegion \<and> opcode (g b) = kAllocate"
  then show "QueryAlias g a b = QueryAlias g (InputAt (g a) 0) b"
    by (subst QueryAlias.simps) simp
next
  assume "a \<noteq> b \<and> Maybe (GetType (g a)) (GetType (g b)) \<and>
          opcode (g a) = kAllocate \<and> opcode (g b) = kFinishRegion"
  then show "QueryAlias g a b = QueryAlias g a (InputAt (g b) 0)"
    by (subst QueryAlias.simps) simp
next
  assume "a \<noteq> b \<and> opcode (g a) = kFinishRegion \<and> opcode (g b) \<noteq> kAllocate"
  then show "QueryAlias g a b =
      Some (if Maybe (GetType (g a)) (GetType (g b)) then kMayAlias else kNoAlias)"
    by (subst QueryAlias.simps) simp
next
  assume "a \<noteq> b \<and> opcode (g b) = kFinishRegion \<and> opcode (g a) \<noteq> kAllocate"
  then show "QueryAlias g a b =
      Some (if Maybe (GetType (g a)) (GetType (g b)) then kMayAlias else kNoAlias)"
    by (subst QueryAlias.simps) auto
qed

theorem C4_witness:
  "QueryAlias region_graph 4 2 = QueryAlias region_graph (InputAt (region_graph 4) 0) 2 \<and>
   QueryAlias region_graph 2 4 = QueryAlias region_graph 2 (InputAt (region_graph 4) 0) \<and>
   QueryAlias region_graph 4 3 = Some kMayAlias \<and>
   QueryAlias region_graph 3 4 = Some kMayAlias"
  using C4_QueryAlias_strips_FinishRegion [of 4 2 region_graph]
        C4_QueryAlias_strips_FinishRegion [of 2 4 region_graph]
        C4_QueryAlias_strips_FinishRegion [of 4 3 region_graph]
        C4_QueryAlias_strips_FinishRegion [of 3 4 region_graph]
  by (simp add: node_of_def Maybe_def)

section \<open>Lookups answer through must-alias\<close>

lemma Lookup_pairs_Some:
  "Lookup_pairs g obj ps = Inr (Some v) \<Longrightarrow>
     \<exists>o'. (o', v) \<in> set ps \<and> QueryAlias g obj o' = Some kMustAlias"
proof (induction ps)
  case Nil
  then show ?case by simp
next
  case (Cons p ps)
  show ?case
  proof (cases "MustAlias g obj (fst p)")
    case None
    with Cons.prems show ?thesis by (simp add: returned_def)
  next
    case (Some must)
    show ?thesis
    proof (cases must)
      case True
      with Some Cons.prems have "snd p = v" by simp
      moreover from True Some have "QueryAlias g obj (fst p) = Some kMustAlias"
        by (simp add: MustAlias_True_iff)
      ultimately show ?thesis by (intro exI[of _ "fst p"]) auto
    next
      case False
      with Some Cons.prems have "Lookup_pairs g obj ps = Inr (Some v)" by simp
      from Cons.IH[OF this] show ?thesis by auto
    qed
  qed
qed

lemma alias_with_eq_Inr:
  "alias_with query g a b = Inr r \<longleftrightarrow> (\<exists>b'. b = Some b' \<and> query g a b' = Some r)"
  by (cases b) (simp_all add: alias_with_def)

lemma Lookup_elements_Some:
  "Lookup_elements cfg g obj idx es = Inr (Some v) \<Longrightarrow>
     \<exists>e o' i'. e \<in> set es \<and> object e = Some o' \<and> index e = Some i' \<and> val e = Some v \<and>
        QueryAlias g obj o' = Some kMustAlias \<and> QueryAlias g idx i' = Some kMustAlias"
proof (induction es)
  case Nil
  then show ?case by simp
next
  case (Cons e es)
  show ?case
  proof (cases "Lookup_elements cfg g obj idx es = Inr (Some v)")
    case True
    from Cons.IH[OF this] show ?thesis by auto
  next
    case False
    with Cons.prems have ne: "object e \<noteq> None" by (auto split: if_splits)
    with Cons.prems False obtain mo where
      mo: "alias_with MustAlias g obj (object e) = Inr mo"
      by (auto simp: and_then_eq_Inr)
    with Cons.prems False ne have "mo" by (auto simp: and_then_eq_Inr split: if_splits)
    with Cons.prems False ne mo obtain mi where
      mi: "alias_with MustAlias g idx (index e) = Inr mi"
      by (auto simp: and_then_eq_Inr split: if_splits)
    with Cons.prems False ne mo \<open>mo\<close> have "mi" and "val e = Some v"
      by (auto simp: and_then_eq_Inr split: if_splits)
    with mo mi \<open>mo\<close> show ?thesis
      by (auto simp: alias_with_eq_Inr MustAlias_True_iff intro!: exI[of _ e])
  qed
qed

lemma region_lookups:
  "LookupField region_graph (state_of_field 0 [(2, 7)]) 4 0 = Inr (Some 7)"
  "LookupElement release_config region_graph (state_of_elements [fact 2 5 7]) 4 5 = Inr (Some 7)"
  by (simp_all add: region_alias_4_2 LookupField_def state_of_field_def field_of_def empty_state_def
      kMaxTrackedFields_def Lookup_field_def LookupElement_def state_of_elements_def ring_of_def
      Lookup_def fact_def alias_with_def DCHECK_def QueryAlias_same MustAlias_def)

text \<open>
  C10, as the claim states it, fails: the \<open>FinishRegion\<close> node 4 and the \<open>Allocate\<close> node 2
  it wraps are two nodes, and the oracle answers must-alias for them. A fact recorded for
  node 2 is returned to a lookup for node 4, by \<open>LookupField\<close> and by \<open>LookupElement\<close>.
\<close>

theorem C10_counterexample:
  "(4 :: Node) \<noteq> 2 \<and>
   QueryAlias region_graph 4 2 = Some kMustAlias \<and>
   LookupField region_graph (state_of_field 0 [(2, 7)]) 4 0 = Inr (Some 7) \<and>
   LookupElement release_config region_graph (state_of_elements [fact 2 5 7]) 4 5 = Inr (Some 7)"
  by (simp add: region_alias_4_2 region_lookups)

text \<open>
  C10, amended: the oracle answers must-alias only when the two nodes are identical or one
  of them is an \<open>Allocate\<close> node that the other strips to through \<open>FinishRegion\<close> wrappers.
  \<open>LookupField\<close> and \<open>LookupElement\<close> return a recorded value only for a query whose object
  node (and, for elements, index node) is related in this way to the node the fact was
  recorded for.
\<close>

theorem C10_must_alias_only_after_stripping:
  "(QueryAlias g a b = Some kMustAlias \<longrightarrow> same_after_stripping g a b) \<and>
   (LookupField g state obj i = Inr (Some v) \<longrightarrow>
      (\<exists>field o'. state_fields state i = Some field \<and> (o', v) \<in> set (info_for_node field) \<and>
         same_after_stripping g obj o')) \<and>
   (LookupElement cfg g state obj idx = Inr (Some v) \<longrightarrow>
      (\<exists>ring e o' i'. state_elements state = Some ring \<and> e \<in> set (elements ring) \<and>
         object e = Some o' \<and> index e = Some i' \<and> val e = Some v \<and>
         same_after_stripping g obj o' \<and> same_after_stripping g idx i'))"
proof (intro conjI impI)
  assume "QueryAlias g a b = Some kMustAlias"
  from QueryAlias_must_cases[OF this] show "same_after_stripping g a b" by simp
next
  assume look: "LookupField g state obj i = Inr (Some v)"
  then obtain field where f: "state_fields state i = Some field"
    and "Lookup_pairs g obj (info_for_node field) = Inr (Some v)"
    by (auto simp: LookupField_def Lookup_field_def split: if_splits option.splits)
  from Lookup_pairs_Some[OF this(2)] obtain o' where
    "(o', v) \<in> set (info_for_node field)" "QueryAlias g obj o' = Some kMustAlias" by auto
  with f QueryAlias_must_cases[OF this(2)]
  show "\<exists>field o'. state_fields state i = Some field \<and> (o', v) \<in> set (info_for_node field) \<and>
         same_after_stripping g obj o'" by auto
next
  assume look: "LookupElement cfg g state obj idx = Inr (Some v)"
  then obtain ring where r: "state_elements state = Some ring"
    and "Lookup_elements cfg g obj idx (elements ring) = Inr (Some v)"
    by (auto simp: LookupElement_def Lookup_def split: option.splits)
  from Lookup_elements_Some[OF this(2)] obtain e o' i' where
    e: "e \<in> set (elements ring)" "object e = Some o'" "index e = Some i'" "val e = Some v"
      "QueryAlias g obj o' = Some kMustAlias" "QueryAlias g idx i' = Some kMustAlias" by blast
  from QueryAlias_must_cases[OF e(5)] QueryAlias_must_cases[OF e(6)]
  have "same_after_stripping g obj o'" "same_after_stripping g idx i'" by simp_all
  with r e show "\<exists>ring e o' i'. state_elements state = Some ring \<and> e \<in> set (elements ring) \<and>
         object e = Some o' \<and> index e = Some i' \<and> val e = Some v \<and>
         same_after_stripping g obj o' \<and> same_after_stripping g idx i'" by blast
qed

theorem C10_witness:
  "same_after_stripping region_graph 4 2 \<and>
   (\<exists>field o'. state_fields (state_of_field 0 [(2, 7)]) 0 = Some field \<and>
      (o', 7) \<in> set (info_for_node field) \<and> same_after_stripping region_graph 4 o') \<and>
   (\<exists>ring e o' i'. state_elements (state_of_elements [fact 2 5 7]) = Some ring \<and>
      e \<in> set (elements ring) \<and> object e = Some o' \<and> index e = Some i' \<and> val e = Some 7 \<and>
      same_after_stripping region_graph 4 o' \<and> same_after_stripping region_graph 5 i')"
  using C10_must_alias_only_after_stripping
          [where g = region_graph and a = 4 and b = 2 and state = "state_of_field 0 [(2, 7)]"
             and obj = 4 and i = 0 and v = 7]
        C10_must_alias_only_after_stripping
          [where g = region_graph and state = "state_of_elements [fact 2 5 7]"
             and cfg = release_config and obj = 4 and idx = 5 and v = 7]
        region_alias_4_2 region_lookups
  by simp

section \<open>Kill keeps the receiver when nothing may alias\<close>

lemma Kill_scan_no_alias:
  "\<forall>e \<in> set es. \<forall>o'. object e = Some o' \<longrightarrow> MayAlias g obj o' = Some False \<Longrightarrow>
     Kill_scan cfg g obj idx this es = Inr ReturnThis"
proof (induction es)
  case Nil
  then show ?case by simp
next
  case (Cons e es)
  then have IH: "Kill_scan cfg g obj idx this es = Inr ReturnThis" by simp
  show ?case
  proof (cases "object e")
    case None
    with IH show ?thesis by simp
  next
    case (Some o')
    with Cons.prems have "MayAlias g obj o' = Some False" by simp
    with Some IH show ?thesis by (simp add: alias_with_def)
  qed
qed

lemma Kill_field_scan_no_alias:
  "\<forall>pair \<in> set ps. MayAlias g obj (fst pair) = Some False \<Longrightarrow>
     Kill_field_scan g obj this ps = Inr ReturnThis"
  by (induction ps) simp_all

text \<open>
  C5: when no non-empty entry of an elements ring has an object that may alias the killed
  object, \<open>AbstractElements::Kill\<close> returns \<open>this\<close>, the receiver itself and not a copy;
  when no pair of a field has a key that may alias the killed object,
  \<open>AbstractField::Kill\<close> returns \<open>this\<close>.
\<close>

theorem C5_Kill_returns_this:
  "((\<forall>e \<in> set (elements ring). \<forall>o'. object e = Some o' \<longrightarrow> MayAlias g obj o' = Some False)
      \<longrightarrow> Kill cfg g ring obj idx = Inr ReturnThis) \<and>
   ((\<forall>pair \<in> set (info_for_node field). MayAlias g obj (fst pair) = Some False)
      \<longrightarrow> Kill_field g field obj = Inr ReturnThis)"
proof (intro conjI impI)
  assume "\<forall>e \<in> set (elements ring). \<forall>o'. object e = Some o' \<longrightarrow> MayAlias g obj o' = Some False"
  then have "Kill_scan cfg g obj idx ring (elements ring) = Inr ReturnThis"
    by (rule Kill_scan_no_alias)
  then show "Kill cfg g ring obj idx = Inr ReturnThis" by (simp add: Kill_def)
next
  assume "\<forall>pair \<in> set (info_for_node field). MayAlias g obj (fst pair) = Some False"
  then have "Kill_field_scan g obj field (info_for_node field) = Inr ReturnThis"
    by (rule Kill_field_scan_no_alias)
  then show "Kill_field g field obj = Inr ReturnThis" by (simp add: Kill_field_def)
qed

lemma region_may_2_3: "MayAlias region_graph 2 3 = Some False"
  by (simp add: MayAlias_def region_alias_2_3)

theorem C5_witness:
  "Kill release_config region_graph (ring_of [fact 3 5 7]) 2 5 = Inr ReturnThis \<and>
   Kill_field region_graph (field_of [(3, 7)]) 2 = Inr ReturnThis"
proof -
  have ring: "\<forall>e \<in> set (elements (ring_of [fact 3 5 7])). \<forall>o'. object e = Some o' \<longrightarrow>
       MayAlias region_graph 2 o' = Some False"
    by (auto simp: ring_of_def fact_def empty_Element_def region_may_2_3)
  have field: "\<forall>pair \<in> set (info_for_node (field_of [(3, 7)])).
       MayAlias region_graph 2 (fst pair) = Some False"
    by (simp add: field_of_def region_may_2_3)
  from ring field
    C5_Kill_returns_this [of "ring_of [fact 3 5 7]" region_graph 2 release_config 5
                             "field_of [(3, 7)]"]
  show ?thesis by blast
qed

section \<open>Nodes without a handler of their own\<close>

text \<open>
  C9, as the claim states it, fails where \<open>DCHECK\<close>s are compiled in: for a node with two
  effect inputs \<open>DCHECK_EQ(0, node->op()->EffectInputCount())\<close> fails and the handler does
  not return \<open>NoChange\<close>.
\<close>

theorem C9_counterexample:
  "EffectInputCount (op (arity_graph 2 1 5)) = 2 \<and>
   ReduceOtherNode debug_config (arity_graph 2 1) [] 5 = Inl DCheckFailed"
  by (simp add: ReduceOtherNode_def arity_graph_def node_of_def op_of_def DCHECK_def
      debug_config_def)

text \<open>
  C9, amended: \<open>ReduceOtherNode\<close> returns \<open>NoChange\<close> and records no state for a node with
  one effect input and a number of effect outputs other than one, and for a node with no
  effect input and no effect output. For every other node whose operator does not have
  exactly one effect input, one of the two \<open>DCHECK_EQ\<close>s fails where they are compiled in;
  where they are not, the handler returns \<open>NoChange\<close> and records no state.
\<close>

theorem C9_ReduceOtherNode_other_arities:
  "(EffectInputCount (op (g node)) = 1 \<and> EffectOutputCount (op (g node)) \<noteq> 1
      \<longrightarrow> ReduceOtherNode cfg g node_states node = Inr (NoChange, node_states)) \<and>
   (EffectInputCount (op (g node)) = 0 \<and> EffectOutputCount (op (g node)) = 0
      \<longrightarrow> ReduceOtherNode cfg g node_states node = Inr (NoChange, node_states)) \<and>
   (EffectInputCount (op (g node)) \<noteq> 1 \<and> \<not> DEBUG cfg
      \<longrightarrow> ReduceOtherNode cfg g node_states node = Inr (NoChange, node_states)) \<and>
   (EffectInputCount (op (g node)) \<noteq> 1 \<and> DEBUG cfg \<and>
      (EffectInputCount (op (g node)) \<noteq> 0 \<or> EffectOutputCount (op (g node)) \<noteq> 0)
      \<longrightarrow> ReduceOtherNode cfg g node_states node = Inl DCheckFailed)"
proof (intro conjI impI)
  assume "EffectInputCount (op (g node)) = 1 \<and> EffectOutputCount (op (g node)) \<noteq> 1"
  then show "ReduceOtherNode cfg g node_states node = Inr (NoChange, node_states)"
    by (simp add: ReduceOtherNode_def)
next
  assume "EffectInputCount (op (g node)) = 0 \<and> EffectOutputCount (op (g node)) = 0"
  then show "ReduceOtherNode cfg g node_states node = Inr (NoChange, node_states)"
    by (simp add: ReduceOtherNode_def)
next
  assume "EffectInputCount (op (g node)) \<noteq> 1 \<and> \<not> DEBUG cfg"
  then show "ReduceOtherNode cfg g node_states node = Inr (NoChange, node_states)"
    by (simp add: ReduceOtherNode_def DCHECK_def)
next
  assume checked: "EffectInputCount (op (g node)) \<noteq> 1 \<and> DEBUG cfg \<and>
      (EffectInputCount (op (g node)) \<noteq> 0 \<or> EffectOutputCount (op (g node)) \<noteq> 0)"
  show "ReduceOtherNode cfg g node_states node = Inl DCheckFailed"
  proof (cases "EffectInputCount (op (g node)) = 0")
    case True
    with checked show ?thesis by (simp add: ReduceOtherNode_def DCHECK_def)
  next
    case False
    with checked show ?thesis by (simp add: ReduceOtherNode_def DCHECK_def)
  qed
qed

theorem C9_witness:
  "ReduceOtherNode debug_config (arity_graph 1 0) [] 5 = Inr (NoChange, []) \<and>
   ReduceOtherNode debug_config (arity_graph 0 0) [] 5 = Inr (NoChange, []) \<and>
   ReduceOtherNode release_config (arity_graph 2 1) [] 5 = Inr (NoChange, []) \<and>
   ReduceOtherNode debug_config (arity_graph 0 1) [] 5 = Inl DCheckFailed"
  using C9_ReduceOtherNode_other_arities [of "arity_graph 1 0" 5 debug_config "[]"]
        C9_ReduceOtherNode_other_arities [of "arity_graph 0 0" 5 debug_config "[]"]
        C9_ReduceOtherNode_other_arities [of "arity_graph 2 1" 5 release_config "[]"]
        C9_ReduceOtherNode_other_arities [of "arity_graph 0 1" 5 debug_config "[]"]
  by (simp add: arity_graph_def node_of_def op_of_def debug_config_def release_config_def)

section \<open>Killing and extending a field\<close>

lemma MayAlias_cases:
  "MayAlias g a b = None \<longleftrightarrow> QueryAlias g a b = None"
  "MayAlias g a b = Some True \<longleftrightarrow> (\<exists>r. QueryAlias g a b = Some r \<and> r \<noteq> kNoAlias)"
  by (auto simp: MayAlias_def)

lemma MustAlias_cases:
  "MustAlias g a b = None \<longleftrightarrow> QueryAlias g a b = None"
  "MustAlias g a b = Some False \<longleftrightarrow> (\<exists>r. QueryAlias g a b = Some r \<and> r \<noteq> kMustAlias)"
  by (auto simp: MustAlias_def)

lemma MayAlias_same: "MayAlias g a a = Some True"
  by (simp add: MayAlias_def QueryAlias_same)

lemma insert_pair_info:
  "set (info_for_node (insert_pair p that)) \<subseteq> insert p (set (info_for_node that))"
  by (auto simp: insert_pair_def)

lemma Kill_field_copy_keeps:
  "Kill_field_copy g obj ps that = Inr that' \<Longrightarrow>
   \<forall>p \<in> set (info_for_node that). QueryAlias g obj (fst p) = Some kNoAlias \<Longrightarrow>
   \<forall>p \<in> set (info_for_node that'). QueryAlias g obj (fst p) = Some kNoAlias"
proof (induction ps arbitrary: that)
  case Nil
  then show ?case by simp
next
  case (Cons p ps)
  from Cons.prems(1) obtain may where may: "MayAlias g obj (fst p) = Some may"
    by (auto simp: and_then_eq_Inr)
  show ?case
  proof (cases may)
    case True
    with may Cons.prems(1) have "Kill_field_copy g obj ps that = Inr that'" by simp
    from Cons.IH[OF this Cons.prems(2)] show ?thesis .
  next
    case False
    with may Cons.prems(1) have rec: "Kill_field_copy g obj ps (insert_pair p that) = Inr that'"
      by simp
    from False may have "QueryAlias g obj (fst p) = Some kNoAlias"
      by (simp add: MayAlias_False_iff)
    with Cons.prems(2) insert_pair_info[of p that]
    have "\<forall>q \<in> set (info_for_node (insert_pair p that)). QueryAlias g obj (fst q) = Some kNoAlias"
      by auto
    from Cons.IH[OF rec this] show ?thesis .
  qed
qed

lemma Kill_field_scan_this:
  "Kill_field_scan g obj this ps = Inr ReturnThis \<Longrightarrow>
   \<forall>p \<in> set ps. QueryAlias g obj (fst p) = Some kNoAlias"
proof (induction ps)
  case Nil
  then show ?case by simp
next
  case (Cons p ps)
  from Cons.prems obtain may where may: "MayAlias g obj (fst p) = Some may"
    by (auto simp: and_then_eq_Inr)
  with Cons.prems have "\<not> may" by (auto simp: and_then_eq_Inr)
  with may Cons.prems have rest: "Kill_field_scan g obj this ps = Inr ReturnThis" by simp
  from may \<open>\<not> may\<close> have "QueryAlias g obj (fst p) = Some kNoAlias"
    by (simp add: MayAlias_False_iff)
  with Cons.IH[OF rest] show ?case by simp
qed

lemma Kill_field_scan_new:
  "Kill_field_scan g obj this ps = Inr (ReturnNew that) \<Longrightarrow>
   Kill_field_copy g obj (info_for_node this) new_AbstractField = Inr that"
proof (induction ps)
  case Nil
  then show ?case by simp
next
  case (Cons p ps)
  from Cons.prems obtain may where may: "MayAlias g obj (fst p) = Some may"
    by (auto simp: and_then_eq_Inr)
  with Cons show ?case by (cases may) (auto simp: and_then_eq_Inr)
qed

lemma Kill_field_no_alias_left:
  assumes "Kill_field g this obj = Inr r"
  shows "\<forall>p \<in> set (info_for_node (deref this r)). QueryAlias g obj (fst p) = Some kNoAlias"
proof (cases r)
  case ReturnThis
  with assms Kill_field_scan_this[of g obj this "info_for_node this"]
  show ?thesis by (simp add: Kill_field_def deref_def)
next
  case (ReturnNew that)
  with assms have "Kill_field_copy g obj (info_for_node this) new_AbstractField = Inr that"
    by (auto simp: Kill_field_def dest: Kill_field_scan_new)
  from Kill_field_copy_keeps[OF this] ReturnNew show ?thesis
    by (simp add: new_AbstractField_def deref_def)
qed

lemma Kill_field_copy_returns:
  "\<forall>p \<in> set ps. QueryAlias g obj (fst p) \<noteq> None \<Longrightarrow>
   \<exists>that'. Kill_field_copy g obj ps that = Inr that'"
proof (induction ps arbitrary: that)
  case Nil
  then show ?case by simp
next
  case (Cons p ps)
  then obtain may where "MayAlias g obj (fst p) = Some may"
    by (auto simp: MayAlias_def)
  with Cons show ?case by (cases may) simp_all
qed

lemma Kill_field_scan_returns:
  "\<forall>p \<in> set ps. QueryAlias g obj (fst p) \<noteq> None \<Longrightarrow>
   \<forall>p \<in> set (info_for_node this). QueryAlias g obj (fst p) \<noteq> None \<Longrightarrow>
   \<exists>r. Kill_field_scan g obj this ps = Inr r"
proof (induction ps)
  case Nil
  then show ?case by simp
next
  case (Cons p ps)
  then obtain may where may: "MayAlias g obj (fst p) = Some may"
    by (auto simp: MayAlias_def)
  from Kill_field_copy_returns[OF Cons.prems(2)] obtain that where
    "Kill_field_copy g obj (info_for_node this) new_AbstractField = Inr that" by blast
  with may Cons show ?case by (cases may) simp_all
qed

lemma Kill_field_returns:
  "\<forall>p \<in> set (info_for_node this). QueryAlias g obj (fst p) \<noteq> None \<Longrightarrow>
   \<exists>r. Kill_field g this obj = Inr r"
  by (simp add: Kill_field_def Kill_field_scan_returns)

lemma Lookup_pairs_append:
  "Lookup_pairs g obj (xs @ ys) =
     and_then (Lookup_pairs g obj xs)
       (\<lambda>r. case r of Some w \<Rightarrow> Inr (Some w) | None \<Rightarrow> Lookup_pairs g obj ys)"
proof (induction xs)
  case Nil
  then show ?case by simp
next
  case (Cons p xs)
  show ?case
  proof (cases "MustAlias g obj (fst p)")
    case None
    then show ?thesis by (simp add: returned_def)
  next
    case (Some must)
    with Cons show ?thesis by (cases must) simp_all
  qed
qed

lemma Lookup_pairs_none:
  "\<forall>p \<in> set ps. \<exists>r. QueryAlias g obj (fst p) = Some r \<and> r \<noteq> kMustAlias \<Longrightarrow>
   Lookup_pairs g obj ps = Inr None"
  by (induction ps) (auto simp: MustAlias_def)

lemma and_then_id_option:
  "and_then r (\<lambda>x. case x of Some w \<Rightarrow> Inr (Some w) | None \<Rightarrow> Inr None) = r"
  by (cases r) (auto split: option.splits)

text \<open>The field that \<open>Extend\<close> returns: what the kill leaves, then the new pair.\<close>

lemma Extend_field_info:
  assumes "Kill_field g this obj = Inr r"
  shows "Extend_field g this obj value =
           Inr \<lparr>info_for_node = info_for_node (deref this r) @ [(obj, value)]\<rparr>"
proof -
  have "obj \<notin> fst ` set (info_for_node (deref this r))"
  proof
    assume "obj \<in> fst ` set (info_for_node (deref this r))"
    then obtain p where "p \<in> set (info_for_node (deref this r))" "fst p = obj" by auto
    with Kill_field_no_alias_left[OF assms] have "QueryAlias g obj obj = Some kNoAlias" by auto
    then show False by (simp add: QueryAlias_same)
  qed
  with assms show ?thesis by (simp add: Extend_field_def insert_pair_def)
qed

section \<open>Must-alias through wrappers\<close>

lemma Maybe_sym: "Maybe s t = Maybe t s"
  by (auto simp: Maybe_def)

lemma QueryAlias_must_sym:
  assumes "QueryAlias g a b = Some kMustAlias"
  shows "QueryAlias g b a = Some kMustAlias"
proof -
  have "kMustAlias = kMustAlias \<longrightarrow> QueryAlias g b a = Some kMustAlias"
  proof (rule QueryAlias.raw_induct
      [where P = "\<lambda>g a b r. r = kMustAlias \<longrightarrow> QueryAlias g b a = Some kMustAlias",
        OF _ assms], goal_cases)
    case (1 Q g a b r)
    show ?case
    proof (cases "a = b")
      case True
      then show ?thesis by (simp add: QueryAlias_same)
    next
      case ne: False
      show ?thesis
      proof (cases "Maybe (GetType (g a)) (GetType (g b))")
        case False
        with ne 1(2) show ?thesis by simp
      next
        case ty: True
        then have ty': "Maybe (GetType (g b)) (GetType (g a))" by (simp add: Maybe_sym)
        show ?thesis
        proof (cases "opcode (g b) = kAllocate \<and> opcode (g a) = kFinishRegion")
          case True
          with ne ty 1(2) have rec: "Q g (InputAt (g a) 0) b = Some r" by simp
          have "QueryAlias g b a = QueryAlias g b (InputAt (g a) 0)"
            using ne ty' True by (subst QueryAlias.simps) auto
          with 1(1)[OF rec] show ?thesis by simp
        next
          case nota: False
          show ?thesis
          proof (cases "opcode (g a) = kAllocate \<and> opcode (g b) = kFinishRegion")
            case True
            with ne ty nota 1(2) have rec: "Q g a (InputAt (g b) 0) = Some r" by simp
            have "QueryAlias g b a = QueryAlias g (InputAt (g b) 0) a"
              using ne ty' True by (subst QueryAlias.simps) auto
            with 1(1)[OF rec] show ?thesis by simp
          next
            case False
            with ne ty nota 1(2) show ?thesis by (auto split: if_splits)
          qed
        qed
      qed
    qed
  qed
  then show ?thesis by simp
qed

lemma strips_to_unique:
  "strips_to g a x \<Longrightarrow> strips_to g a y \<Longrightarrow>
   opcode (g x) \<noteq> kFinishRegion \<Longrightarrow> opcode (g y) \<noteq> kFinishRegion \<Longrightarrow> x = y"
proof (induction arbitrary: y rule: strips_to.induct)
  case (strips_once a b)
  from strips_once.prems(1) strips_once.hyps strips_once.prems(2,3) show ?case
    by (cases rule: strips_to.cases) (auto dest: strips_to_FinishRegion)
next
  case (strips_more a b)
  from strips_more.prems(1) show ?case
  proof (cases rule: strips_to.cases)
    case strips_once
    with strips_more.hyps(2) strips_more.prems(3) show ?thesis
      by (auto dest: strips_to_FinishRegion)
  next
    case strips_more': strips_more
    from strips_more.IH[OF strips_more'(2) strips_more.prems(2,3)] show ?thesis .
  qed
qed

lemma QueryAlias_Allocate_Allocate:
  "opcode (g a) = kAllocate \<Longrightarrow> opcode (g e) = kAllocate \<Longrightarrow> \<exists>r. QueryAlias g a e = Some r"
  by (subst QueryAlias.simps) simp

lemma QueryAlias_wrapper_returns:
  "strips_to g a alloc \<Longrightarrow> opcode (g alloc) = kAllocate \<Longrightarrow> \<exists>r. QueryAlias g a e = Some r"
proof (induction rule: strips_to.induct)
  case (strips_once a b)
  show ?case
  proof (cases "opcode (g e) = kAllocate")
    case True
    with strips_once QueryAlias_Allocate_Allocate[of g b e]
    show ?thesis by (subst QueryAlias.simps) auto
  next
    case False
    with strips_once show ?thesis by (subst QueryAlias.simps) auto
  qed
next
  case (strips_more a b)
  then show ?case by (subst QueryAlias.simps) auto
qed

lemma must_excludes_killed:
  assumes must: "QueryAlias g o' obj = Some kMustAlias"
    and how: "o' = obj \<or> opcode (g obj) = kAllocate"
    and no: "QueryAlias g obj e = Some kNoAlias"
  shows "\<exists>r. QueryAlias g o' e = Some r \<and> r \<noteq> kMustAlias"
proof (cases "o' = obj")
  case True
  with no show ?thesis by simp
next
  case False
  with how have alloc: "opcode (g obj) = kAllocate" by simp
  from QueryAlias_must_cases[OF must] False alloc have st: "strips_to g o' obj"
    by (auto simp: same_after_stripping_def dest: strips_to_FinishRegion)
  from QueryAlias_wrapper_returns[OF st alloc] obtain r where r: "QueryAlias g o' e = Some r"
    by blast
  have "r \<noteq> kMustAlias"
  proof
    assume "r = kMustAlias"
    with r have m: "QueryAlias g o' e = Some kMustAlias" by simp
    from QueryAlias_must_cases[OF m] have "same_after_stripping g o' e" by simp
    then consider "o' = e" | "opcode (g e) = kAllocate" "strips_to g o' e"
      | "opcode (g o') = kAllocate" "strips_to g e o'"
      by (auto simp: same_after_stripping_def)
    then show False
    proof cases
      case 1
      with QueryAlias_must_sym[OF must] no show False by simp
    next
      case 2
      from strips_to_unique[OF st 2(2)] alloc 2(1) have "obj = e" by simp
      with no show False by (simp add: QueryAlias_same)
    next
      case 3
      with st show False by (auto dest: strips_to_FinishRegion)
    qed
  qed
  with r show ?thesis by simp
qed

section \<open>AddField, then LookupField\<close>

lemma Lookup_pairs_single:
  "Lookup_pairs g o' [(obj, v)] =
     and_then (returned (MustAlias g o' obj)) (\<lambda>must. if must then Inr (Some v) else Inr None)"
  by (simp cong: if_cong)

lemma nested_region_graph_simps [simp]:
  "nested_region_graph 8 = node_of kFinishRegion pure_op {1} [6] [] []"
  "nested_region_graph 6 = node_of kFinishRegion pure_op {2} [2] [] []"
  "nested_region_graph 2 = node_of kAllocate pure_op {1, 2} [] [] []"
  by (simp_all add: nested_region_graph_def)

lemma nested_alias_2_6: "QueryAlias nested_region_graph 2 6 = Some kMustAlias"
  by (subst QueryAlias.simps) (simp add: node_of_def Maybe_def input_of_def QueryAlias_same)

lemma nested_alias_2_8: "QueryAlias nested_region_graph 2 8 = Some kMustAlias"
  by (subst QueryAlias.simps) (simp add: node_of_def Maybe_def input_of_def nested_alias_2_6)

lemma nested_alias_8_6: "QueryAlias nested_region_graph 8 6 = Some kNoAlias"
  by (subst QueryAlias.simps) (simp add: node_of_def Maybe_def)

lemma region_AddField_2:
  "AddField region_graph (state_of_field 5 [(3, 9)]) 2 5 7 =
     Inr (state_of_field 5 [(3, 9), (2, 7)])"
  by (simp add: AddField_def state_of_field_def field_of_def empty_state_def
      kMaxTrackedFields_def Extend_field_def Kill_field_def MayAlias_def region_alias_2_3
      deref_def insert_pair_def)

lemma region_KillField_2:
  "KillField region_graph (state_of_field 5 [(3, 9)]) 2 5 = Inr ReturnThis"
  by (simp add: KillField_def state_of_field_def field_of_def empty_state_def
      kMaxTrackedFields_def Kill_field_def MayAlias_def region_alias_2_3)

lemma region_LookupField_3:
  "LookupField region_graph (state_of_field 5 [(3, 9), (2, 7)]) 3 5 = Inr (Some 9)"
  by (simp add: LookupField_def state_of_field_def field_of_def empty_state_def
      kMaxTrackedFields_def Lookup_field_def MustAlias_def QueryAlias_same)

lemma nested_AddField_8:
  "AddField nested_region_graph (state_of_field 5 [(6, 9)]) 8 5 7 =
     Inr (state_of_field 5 [(6, 9), (8, 7)])"
  by (simp add: AddField_def state_of_field_def field_of_def empty_state_def
      kMaxTrackedFields_def Extend_field_def Kill_field_def MayAlias_def nested_alias_8_6
      deref_def insert_pair_def)

lemma nested_LookupField_2:
  "LookupField nested_region_graph (state_of_field 5 [(6, 9), (8, 7)]) 2 5 = Inr (Some 9)"
  by (simp add: LookupField_def state_of_field_def field_of_def empty_state_def
      kMaxTrackedFields_def Lookup_field_def MustAlias_def nested_alias_2_6)

text \<open>
  C6, as the claim states it, fails in both halves. Node 3 provably does not alias node 2,
  and after \<open>AddField(2, 5, 7)\<close> the lookup for node 3 returns the value 9 recorded for it
  before, not none. Node 2 must-aliases the wrapper 8, and after \<open>AddField(8, 5, 7)\<close> the
  lookup for node 2 returns the value 9 recorded for the other wrapper 6, which the kill
  for node 8 left in place because the types of the two wrappers are disjoint.
\<close>

theorem C6_counterexample:
  "QueryAlias region_graph 3 2 = Some kNoAlias \<and>
   AddField region_graph (state_of_field 5 [(3, 9)]) 2 5 7 =
     Inr (state_of_field 5 [(3, 9), (2, 7)]) \<and>
   LookupField region_graph (state_of_field 5 [(3, 9), (2, 7)]) 3 5 = Inr (Some 9) \<and>
   QueryAlias nested_region_graph 2 8 = Some kMustAlias \<and>
   AddField nested_region_graph (state_of_field 5 [(6, 9)]) 8 5 7 =
     Inr (state_of_field 5 [(6, 9), (8, 7)]) \<and>
   LookupField nested_region_graph (state_of_field 5 [(6, 9), (8, 7)]) 2 5 = Inr (Some 9)"
  by (simp add: region_alias_3_2 region_AddField_2 region_LookupField_3 nested_alias_2_8
      nested_AddField_8 nested_LookupField_2)

text \<open>
  C6, amended: let the alias queries of \<open>obj\<close> against the keys of slot \<open>k\<close> return. Then
  \<open>AddField(obj, k, v)\<close> returns a state in which \<open>LookupField(o', k)\<close>
  \<^item> returns \<open>v\<close> whenever \<open>o'\<close> must-aliases \<open>obj\<close> and \<open>o'\<close> is \<open>obj\<close> itself, or \<open>obj\<close> is an
    \<open>Allocate\<close> node, or \<open>o'\<close> must-aliases no key that the kill for \<open>obj\<close> leaves in slot \<open>k\<close>;
  \<^item> returns what it returns on the state after \<open>KillField(obj, k)\<close> whenever the oracle's
    answer for \<open>o'\<close> and \<open>obj\<close> is not must-alias, in particular when it is no-alias: the new
    pair is not seen, and an earlier fact whose key does not may-alias \<open>obj\<close> still is;
  \<^item> returns none in that case when the state held nothing for slot \<open>k\<close>.
\<close>

theorem C6_AddField_then_LookupField:
  assumes k: "k < kMaxTrackedFields"
    and terminate: "\<forall>field. state_fields state k = Some field \<longrightarrow>
                      (\<forall>p \<in> set (info_for_node field). QueryAlias g obj (fst p) \<noteq> None)"
  shows "\<exists>killed state'.
     KillField g state obj k = Inr killed \<and> AddField g state obj k v = Inr state' \<and>
     (QueryAlias g o' obj = Some kMustAlias \<and>
        (o' = obj \<or> opcode (g obj) = kAllocate \<or>
         (\<forall>field. state_fields (deref state killed) k = Some field \<longrightarrow>
            (\<forall>p \<in> set (info_for_node field).
               \<exists>r. QueryAlias g o' (fst p) = Some r \<and> r \<noteq> kMustAlias)))
        \<longrightarrow> LookupField g state' o' k = Inr (Some v)) \<and>
     ((\<exists>r. QueryAlias g o' obj = Some r \<and> r \<noteq> kMustAlias)
        \<longrightarrow> LookupField g state' o' k = LookupField g (deref state killed) o' k) \<and>
     ((\<exists>r. QueryAlias g o' obj = Some r \<and> r \<noteq> kMustAlias) \<and> state_fields state k = None
        \<longrightarrow> LookupField g state' o' k = Inr None)"
proof (cases "state_fields state k")
  case None
  let ?state' = "state\<lparr>state_fields := (state_fields state)(k := Some (new_AbstractField2 obj v))\<rparr>"
  have kill: "KillField g state obj k = Inr ReturnThis"
    using k None by (simp add: KillField_def)
  have add: "AddField g state obj k v = Inr ?state'"
    using k None by (simp add: AddField_def)
  have look: "LookupField g ?state' o' k =
      and_then (returned (MustAlias g o' obj)) (\<lambda>must. if must then Inr (Some v) else Inr None)"
    using k by (simp add: LookupField_def Lookup_field_def new_AbstractField2_def
        insert_pair_def new_AbstractField_def cong: if_cong)
  have old: "LookupField g state o' k = Inr None"
    using k None by (simp add: LookupField_def)
  have must: "QueryAlias g o' obj = Some kMustAlias \<Longrightarrow> LookupField g ?state' o' k = Inr (Some v)"
    by (simp add: look MustAlias_def)
  have other: "\<exists>r. QueryAlias g o' obj = Some r \<and> r \<noteq> kMustAlias \<Longrightarrow>
      LookupField g ?state' o' k = Inr None"
    by (auto simp: look MustAlias_def)
  from kill add must other old show ?thesis
    by (intro exI[of _ ReturnThis] exI[of _ ?state']) (simp add: deref_def)
next
  case (Some field)
  with terminate have "\<forall>p \<in> set (info_for_node field). QueryAlias g obj (fst p) \<noteq> None" by simp
  from Kill_field_returns[OF this] obtain r where r: "Kill_field g field obj = Inr r" by blast
  let ?left = "info_for_node (deref field r)"
  let ?killed = "case r of ReturnNew that_field \<Rightarrow>
                   ReturnNew (state\<lparr>state_fields := (state_fields state)(k := Some that_field)\<rparr>)
                 | ReturnThis \<Rightarrow> ReturnThis"
  let ?state' = "state\<lparr>state_fields := (state_fields state)
                   (k := Some \<lparr>info_for_node = ?left @ [(obj, v)]\<rparr>)\<rparr>"
  have kill: "KillField g state obj k = Inr ?killed"
    using k Some r by (simp add: KillField_def split: returns.splits)
  have add: "AddField g state obj k v = Inr ?state'"
    using k Some Extend_field_info[OF r] by (simp add: AddField_def)
  have left: "state_fields (deref state ?killed) k = Some (deref field r)"
    using Some by (cases r) (simp_all add: deref_def)
  have old: "LookupField g (deref state ?killed) o' k = Lookup_pairs g o' ?left"
    using k left by (simp add: LookupField_def Lookup_field_def)
  have look: "LookupField g ?state' o' k =
      and_then (Lookup_pairs g o' ?left)
        (\<lambda>r. case r of Some w \<Rightarrow> Inr (Some w) | None \<Rightarrow> Lookup_pairs g o' [(obj, v)])"
    using k by (simp add: LookupField_def Lookup_field_def Lookup_pairs_append)
  have must: "LookupField g ?state' o' k = Inr (Some v)"
    if m: "QueryAlias g o' obj = Some kMustAlias"
      and how: "o' = obj \<or> opcode (g obj) = kAllocate \<or>
         (\<forall>field. state_fields (deref state ?killed) k = Some field \<longrightarrow>
            (\<forall>p \<in> set (info_for_node field).
               \<exists>r. QueryAlias g o' (fst p) = Some r \<and> r \<noteq> kMustAlias))"
  proof -
    have "\<forall>p \<in> set ?left. \<exists>r. QueryAlias g o' (fst p) = Some r \<and> r \<noteq> kMustAlias"
    proof (cases "o' = obj \<or> opcode (g obj) = kAllocate")
      case True
      show ?thesis
      proof
        fix p assume "p \<in> set ?left"
        with Kill_field_no_alias_left[OF r] have "QueryAlias g obj (fst p) = Some kNoAlias"
          by simp
        from must_excludes_killed[OF m True this]
        show "\<exists>r. QueryAlias g o' (fst p) = Some r \<and> r \<noteq> kMustAlias" .
      qed
    next
      case False
      with how left show ?thesis by simp
    qed
    from Lookup_pairs_none[OF this] m show ?thesis
      by (simp add: look MustAlias_def)
  qed
  have other: "LookupField g ?state' o' k = LookupField g (deref state ?killed) o' k"
    if "\<exists>r. QueryAlias g o' obj = Some r \<and> r \<noteq> kMustAlias"
  proof -
    from that have "Lookup_pairs g o' [(obj, v)] = Inr None"
      by (auto simp: MustAlias_def)
    then show ?thesis by (simp only: look old and_then_id_option)
  qed
  from Some kill add must other show ?thesis
    by (intro exI[of _ ?killed] exI[of _ ?state']) simp
qed

theorem C6_witness:
  "5 < kMaxTrackedFields \<and>
   QueryAlias region_graph 4 2 = Some kMustAlias \<and> opcode (region_graph 2) = kAllocate \<and>
   QueryAlias region_graph 3 2 = Some kNoAlias \<and>
   (\<exists>state'. AddField region_graph (state_of_field 5 [(3, 9)]) 2 5 7 = Inr state' \<and>
      LookupField region_graph state' 4 5 = Inr (Some 7) \<and>
      LookupField region_graph state' 3 5 =
        LookupField region_graph (state_of_field 5 [(3, 9)]) 3 5) \<and>
   (\<exists>state'. AddField region_graph empty_state 2 5 7 = Inr state' \<and>
      LookupField region_graph state' 3 5 = Inr None)"
proof -
  have k: "5 < kMaxTrackedFields" by (simp add: kMaxTrackedFields_def)
  have t: "\<forall>field. state_fields (state_of_field 5 [(3, 9)]) 5 = Some field \<longrightarrow>
      (\<forall>p \<in> set (info_for_node field). QueryAlias region_graph 2 (fst p) \<noteq> None)"
    by (simp add: state_of_field_def field_of_def region_alias_2_3)
  have e: "\<forall>field. state_fields empty_state 5 = Some field \<longrightarrow>
      (\<forall>p \<in> set (info_for_node field). QueryAlias region_graph 2 (fst p) \<noteq> None)"
    by (simp add: empty_state_def)
  have a: "opcode (region_graph 2) = kAllocate" by (simp add: node_of_def)
  from C6_AddField_then_LookupField [OF k t, of 7 4]
       C6_AddField_then_LookupField [OF k t, of 7 3]
       C6_AddField_then_LookupField [OF k e, of 7 3]
       k t a region_alias_4_2 region_alias_3_2 region_KillField_2
  show ?thesis by (auto simp: deref_def empty_state_def)
qed

section \<open>A store after a store\<close>

lemma FieldIndexOf_range:
  "FieldIndexOf cfg access = Inr k \<Longrightarrow> k < int kMaxTrackedFields"
  by (cases "field_representation access")
    (auto simp: FieldIndexOf_def Let_def and_then_eq_Inr kMaxTrackedFields_def
      split: if_splits)

lemma Get_Set_same: "Get (Set info node state) node = Some state"
  by (simp add: Get_def Set_def Let_def)

lemma Lookup_pairs_returns:
  "\<forall>p \<in> set ps. QueryAlias g obj (fst p) \<noteq> None \<Longrightarrow> \<exists>r. Lookup_pairs g obj ps = Inr r"
proof (induction ps)
  case Nil
  then show ?case by simp
next
  case (Cons p ps)
  then obtain must where "MustAlias g obj (fst p) = Some must"
    by (auto simp: MustAlias_def)
  with Cons show ?case by (cases must) simp_all
qed

lemma Lookup_pairs_found:
  "(obj, v) \<in> set ps \<Longrightarrow>
   \<forall>p \<in> set ps. p = (obj, v) \<or> QueryAlias g obj (fst p) = Some kNoAlias \<Longrightarrow>
   Lookup_pairs g obj ps = Inr (Some v)"
proof (induction ps)
  case Nil
  then show ?case by simp
next
  case (Cons p ps)
  show ?case
  proof (cases "p = (obj, v)")
    case True
    then show ?thesis by (simp add: MustAlias_def QueryAlias_same)
  next
    case False
    with Cons.prems have "QueryAlias g obj (fst p) = Some kNoAlias" "(obj, v) \<in> set ps"
      by auto
    with Cons show ?thesis by (simp add: MustAlias_def)
  qed
qed

text \<open>
  What \<open>KillField\<close> followed by \<open>AddField\<close> leaves in the slot: pairs that do not alias
  the object, and the new pair.
\<close>

lemma KillField_AddField:
  assumes k: "k < kMaxTrackedFields"
    and terminate: "\<forall>field. state_fields state k = Some field \<longrightarrow>
                      (\<forall>p \<in> set (info_for_node field). QueryAlias g obj (fst p) \<noteq> None)"
  shows "\<exists>killed state' field'.
     KillField g state obj k = Inr killed \<and>
     AddField g (deref state killed) obj k v = Inr state' \<and>
     state_fields state' k = Some field' \<and>
     (obj, v) \<in> set (info_for_node field') \<and>
     (\<forall>p \<in> set (info_for_node field').
        p = (obj, v) \<or> QueryAlias g obj (fst p) = Some kNoAlias)"
proof (cases "state_fields state k")
  case None
  with k show ?thesis
    by (simp add: KillField_def AddField_def deref_def new_AbstractField2_def insert_pair_def
        new_AbstractField_def)
next
  case (Some field)
  with terminate have "\<forall>p \<in> set (info_for_node field). QueryAlias g obj (fst p) \<noteq> None" by simp
  from Kill_field_returns[OF this] obtain r where r: "Kill_field g field obj = Inr r" by blast
  let ?left = "deref field r"
  let ?killed = "case r of ReturnNew that_field \<Rightarrow>
                   ReturnNew (state\<lparr>state_fields := (state_fields state)(k := Some that_field)\<rparr>)
                 | ReturnThis \<Rightarrow> ReturnThis"
  have kill: "KillField g state obj k = Inr ?killed"
    using k Some r by (simp add: KillField_def split: returns.splits)
  have left: "state_fields (deref state ?killed) k = Some ?left"
    using Some by (cases r) (simp_all add: deref_def)
  have no: "\<forall>p \<in> set (info_for_node ?left). QueryAlias g obj (fst p) = Some kNoAlias"
    by (rule Kill_field_no_alias_left[OF r])
  then have "\<forall>p \<in> set (info_for_node ?left). MayAlias g obj (fst p) = Some False"
    by (simp add: MayAlias_False_iff)
  then have again: "Kill_field g ?left obj = Inr ReturnThis"
    by (simp add: Kill_field_def Kill_field_scan_no_alias)
  let ?field' = "\<lparr>info_for_node = info_for_node ?left @ [(obj, v)]\<rparr>"
  let ?state' = "(deref state ?killed)\<lparr>state_fields :=
                    (state_fields (deref state ?killed))(k := Some ?field')\<rparr>"
  have add: "AddField g (deref state ?killed) obj k v = Inr ?state'"
    using k left Extend_field_info[OF again] by (simp add: AddField_def deref_def)
  from kill add no show ?thesis
    by (intro exI[of _ ?killed] exI[of _ ?state'] exI[of _ ?field']) auto
qed

lemma Equals_state_slot:
  assumes "Equals_state this that" "i < kMaxTrackedFields" "state_fields this i = Some this_field"
  shows "\<exists>that_field. state_fields that i = Some that_field \<and>
           set (info_for_node that_field) = set (info_for_node this_field)"
proof -
  from assms(2) have "i \<in> set slots" by (simp add: slots_def)
  with assms(1) have "case state_fields this i of
           Some this_field \<Rightarrow>
             (case state_fields that i of
                None \<Rightarrow> False
              | Some that_field \<Rightarrow> Equals_field that_field this_field)
         | None \<Rightarrow> state_fields that i = None"
    by (simp add: Equals_state_def list_all_iff)
  with assms(3) show ?thesis
    by (auto simp: Equals_field_def split: option.splits)
qed

lemma UpdateState_post:
  assumes "UpdateState node_states node state = (reduction, node_states')"
  shows "(reduction = Changed node \<or> reduction = NoChange) \<and>
         (\<exists>post. Get node_states' node = Some post \<and> (post = state \<or> Equals_state state post))"
  using assms
  by (auto simp: UpdateState_def Get_Set_same split: option.splits if_splits)

lemma two_stores_graph_simps [simp]:
  "two_stores_graph rep 0 = node_of kStart (op_of 0 0 1 True kTagged 0) {0} [] [] []"
  "two_stores_graph rep 2 = node_of kStoreField (op_of 2 1 1 False rep 40) {0} [10, 11] [0] []"
  "two_stores_graph rep 3 = node_of kStoreField (op_of 2 1 1 False rep 40) {0} [10, 11] [2] []"
  by (simp_all add: two_stores_graph_def)

lemma replicate_2: "replicate 2 x = [x, x]"
  by (simp add: numeral_2_eq_2)

lemma two_stores_first_untracked:
  "ReduceStoreField release_config (two_stores_graph kFloat64) [Some empty_state] 2 =
     Inr (Changed 2, [Some empty_state, None, Some empty_state])"
  by (simp add: ReduceStoreField_def node_of_def op_of_def input_of_def Get_def FieldIndexOf_def
      UpdateState_def Set_def Let_def replicate_2)

lemma two_stores_second_untracked:
  "ReduceStoreField release_config (two_stores_graph kFloat64)
     [Some empty_state, None, Some empty_state] 3 =
     Inr (Changed 3, [Some empty_state, None, Some empty_state, Some empty_state])"
  by (simp add: ReduceStoreField_def node_of_def op_of_def input_of_def Get_def FieldIndexOf_def
      UpdateState_def Set_def Let_def replicate_2)

text \<open>
  C7, as the claim states it, fails for a field that is not tracked: two consecutive stores
  of node 11 to the same \<open>Float64\<close> field of node 10. \<open>FieldIndexOf\<close> is negative, each
  store resets the state to \<open>empty_state\<close>, and reducing the second store yields
  \<open>Changed\<close>, not \<open>Replace(effect)\<close>.
\<close>

theorem C7_counterexample:
  "FieldAccessOf (op (two_stores_graph kFloat64 3)) = FieldAccessOf (op (two_stores_graph kFloat64 2)) \<and>
   GetValueInput (two_stores_graph kFloat64 3) 0 = GetValueInput (two_stores_graph kFloat64 2) 0 \<and>
   GetValueInput (two_stores_graph kFloat64 3) 1 = GetValueInput (two_stores_graph kFloat64 2) 1 \<and>
   GetEffectInput (two_stores_graph kFloat64 3) 0 = 2 \<and>
   ReduceStoreField release_config (two_stores_graph kFloat64) [Some empty_state] 2 =
     Inr (Changed 2, [Some empty_state, None, Some empty_state]) \<and>
   ReduceStoreField release_config (two_stores_graph kFloat64)
     [Some empty_state, None, Some empty_state] 3 =
     Inr (Changed 3, [Some empty_state, None, Some empty_state, Some empty_state])"
  by (simp add: two_stores_first_untracked two_stores_second_untracked)
    (simp add: node_of_def input_of_def)

text \<open>
  C7, amended: let two \<open>StoreField\<close> nodes store the identical value node to the same field of
  the same object, the second having the first as its effect input, and let the field be
  tracked (\<open>FieldIndexOf\<close> is not negative). If the state before the first store is known,
  the first store is not itself redundant in it and the alias queries of the object against
  the keys of the slot return, then reducing the first store returns \<open>Changed\<close> or
  \<open>NoChange\<close>, and reducing the second store in the resulting table yields
  \<open>Replace(effect)\<close>, its effect input being the first store.
\<close>

theorem C7_second_store_replaced:
  assumes pred: "Get node_states (GetEffectInput (g store1) 0) = Some state"
    and tracked: "FieldIndexOf cfg (FieldAccessOf (op (g store1))) = Inr k" "0 \<le> k"
    and terminate: "\<forall>field. state_fields state (nat k) = Some field \<longrightarrow>
        (\<forall>p \<in> set (info_for_node field).
           QueryAlias g (GetValueInput (g store1) 0) (fst p) \<noteq> None)"
    and kept: "LookupField g state (GetValueInput (g store1) 0) (nat k) \<noteq>
                 Inr (Some (GetValueInput (g store1) 1))"
    and same: "FieldAccessOf (op (g store2)) = FieldAccessOf (op (g store1))"
        "GetValueInput (g store2) 0 = GetValueInput (g store1) 0"
        "GetValueInput (g store2) 1 = GetValueInput (g store1) 1"
    and chain: "GetEffectInput (g store2) 0 = store1"
  shows "\<exists>reduction node_states1.
     ReduceStoreField cfg g node_states store1 = Inr (reduction, node_states1) \<and>
     (reduction = Changed store1 \<or> reduction = NoChange) \<and>
     ReduceStoreField cfg g node_states1 store2 = Inr (Replace store1, node_states1)"
proof -
  let ?obj = "GetValueInput (g store1) 0"
  let ?v = "GetValueInput (g store1) 1"
  from FieldIndexOf_range[OF tracked(1)] tracked(2) have k: "nat k < kMaxTrackedFields"
    by simp
  from KillField_AddField[OF k terminate, of ?v] obtain killed state' field' where
    kill: "KillField g state ?obj (nat k) = Inr killed"
    and add: "AddField g (deref state killed) ?obj (nat k) ?v = Inr state'"
    and slot: "state_fields state' (nat k) = Some field'"
    and new: "(?obj, ?v) \<in> set (info_for_node field')"
    and rest: "\<forall>p \<in> set (info_for_node field').
        p = (?obj, ?v) \<or> QueryAlias g ?obj (fst p) = Some kNoAlias"
    by blast
  have "\<exists>old. LookupField g state ?obj (nat k) = Inr old"
  proof (cases "state_fields state (nat k)")
    case None
    with k show ?thesis by (simp add: LookupField_def)
  next
    case (Some field)
    with terminate Lookup_pairs_returns[of "info_for_node field" g ?obj] k
    show ?thesis by (simp add: LookupField_def Lookup_field_def)
  qed
  then obtain old where old: "LookupField g state ?obj (nat k) = Inr old" by blast
  with kept have old_ne: "old \<noteq> Some ?v" by simp
  obtain reduction node_states1 where
    upd: "UpdateState node_states store1 state' = (reduction, node_states1)"
    by (cases "UpdateState node_states store1 state'") blast
  have first: "ReduceStoreField cfg g node_states store1 = Inr (reduction, node_states1)"
    using pred tracked old old_ne kill add upd
    by (simp add: ReduceStoreField_def Let_def)
  from UpdateState_post[OF upd] obtain post where
    red: "reduction = Changed store1 \<or> reduction = NoChange"
    and post: "Get node_states1 store1 = Some post"
    and eq: "post = state' \<or> Equals_state state' post"
    by blast
  have "\<exists>post_field. state_fields post (nat k) = Some post_field \<and>
          set (info_for_node post_field) = set (info_for_node field')"
    using eq
  proof
    assume "post = state'"
    with slot show ?thesis by simp
  next
    assume "Equals_state state' post"
    from Equals_state_slot[OF this k slot] show ?thesis .
  qed
  then obtain post_field where
    pf: "state_fields post (nat k) = Some post_field"
    and same_set: "set (info_for_node post_field) = set (info_for_node field')"
    by blast
  from new rest same_set
  have "Lookup_pairs g ?obj (info_for_node post_field) = Inr (Some ?v)"
    by (intro Lookup_pairs_found) simp_all
  with k pf have look: "LookupField g post ?obj (nat k) = Inr (Some ?v)"
    by (simp add: LookupField_def Lookup_field_def)
  have second: "ReduceStoreField cfg g node_states1 store2 = Inr (Replace store1, node_states1)"
    using post tracked same chain look
    by (simp add: ReduceStoreField_def Let_def)
  from first red second show ?thesis by blast
qed

lemma two_stores_first_tracked:
  "ReduceStoreField release_config (two_stores_graph kTagged) [Some empty_state] 2 =
     Inr (Changed 2, [Some empty_state, None, Some (state_of_field 5 [(10, 11)])])"
  by (simp add: ReduceStoreField_def node_of_def op_of_def input_of_def Get_def FieldIndexOf_def
      UpdateState_def Set_def Let_def replicate_2 release_config_def DCHECK_def
      signed_divide_int_def
      kMaxTrackedFields_def LookupField_def KillField_def AddField_def empty_state_def
      deref_def new_AbstractField2_def insert_pair_def new_AbstractField_def state_of_field_def
      field_of_def)

theorem C7_witness:
  "ReduceStoreField release_config (two_stores_graph kTagged) [Some empty_state] 2 =
     Inr (Changed 2, [Some empty_state, None, Some (state_of_field 5 [(10, 11)])]) \<and>
   ReduceStoreField release_config (two_stores_graph kTagged)
     [Some empty_state, None, Some (state_of_field 5 [(10, 11)])] 3 =
     Inr (Replace 2, [Some empty_state, None, Some (state_of_field 5 [(10, 11)])])"
proof -
  let ?g = "two_stores_graph kTagged"
  have pred: "Get [Some empty_state] (GetEffectInput (?g 2) 0) = Some empty_state"
    by (simp add: node_of_def input_of_def Get_def)
  have tracked: "FieldIndexOf release_config (FieldAccessOf (op (?g 2))) = Inr 5" "(0::int) \<le> 5"
    by (simp_all add: node_of_def op_of_def FieldIndexOf_def release_config_def DCHECK_def
        signed_divide_int_def kMaxTrackedFields_def)
  have terminate: "\<forall>field. state_fields empty_state (nat 5) = Some field \<longrightarrow>
        (\<forall>p \<in> set (info_for_node field). QueryAlias ?g (GetValueInput (?g 2) 0) (fst p) \<noteq> None)"
    by (simp add: empty_state_def)
  have kept: "LookupField ?g empty_state (GetValueInput (?g 2) 0) (nat 5) \<noteq>
                 Inr (Some (GetValueInput (?g 2) 1))"
    by (simp add: LookupField_def empty_state_def kMaxTrackedFields_def)
  have same: "FieldAccessOf (op (?g 3)) = FieldAccessOf (op (?g 2))"
        "GetValueInput (?g 3) 0 = GetValueInput (?g 2) 0"
        "GetValueInput (?g 3) 1 = GetValueInput (?g 2) 1"
    by (simp_all add: node_of_def)
  have chain: "GetEffectInput (?g 3) 0 = 2"
    by (simp add: node_of_def input_of_def)
  from C7_second_store_replaced[OF pred tracked terminate kept same chain]
  show ?thesis by (auto simp: two_stores_first_tracked)
qed

section \<open>Killing and extending an elements ring\<close>

lemma store_next_eq_Inr:
  "store_next that e = Inr that' \<longleftrightarrow>
     next_index that < length (elements that) \<and>
     that' = that\<lparr>elements := (elements that)[next_index that := e],
                   next_index := next_index that + 1\<rparr>"
  by (auto simp: store_next_def)

lemma set_update_subset: "set (xs[n := x]) \<subseteq> insert x (set xs)"
  by (rule set_update_subset_insert)

lemma Kill_copy_result:
  assumes "\<forall>e \<in> set es. object e = None \<or> (index e \<noteq> None \<and> val e \<noteq> None)"
    and "\<forall>e \<in> set es. case object e of
             None \<Rightarrow> True
           | Some eo \<Rightarrow>
               QueryAlias g obj eo \<noteq> None \<and>
               (case index e of None \<Rightarrow> True | Some ei \<Rightarrow> QueryAlias g idx ei \<noteq> None)"
    and "next_index that + length es \<le> length (elements that)"
  shows "\<exists>that'. Kill_copy cfg g obj idx es that = Inr that' \<and>
           length (elements that') = length (elements that) \<and>
           next_index that' \<le> next_index that + length es \<and>
           set (elements that') \<subseteq> set (elements that) \<union> {e \<in> set es. survives g obj idx e}"
  using assms
proof (induction es arbitrary: that)
  case Nil
  then show ?case by simp
next
  case (Cons e es)
  let ?stored = "that\<lparr>elements := (elements that)[next_index that := e],
                      next_index := next_index that + 1\<rparr>"
  have store: "store_next that e = Inr ?stored"
    using Cons.prems(3) by (simp add: store_next_def)
  have skip: "\<exists>that'. Kill_copy cfg g obj idx es that = Inr that' \<and>
           length (elements that') = length (elements that) \<and>
           next_index that' \<le> next_index that + length es \<and>
           set (elements that') \<subseteq> set (elements that) \<union> {e \<in> set es. survives g obj idx e}"
    using Cons.prems by (intro Cons.IH) auto
  have keep: "\<exists>that'. Kill_copy cfg g obj idx es ?stored = Inr that' \<and>
           length (elements that') = length (elements ?stored) \<and>
           next_index that' \<le> next_index ?stored + length es \<and>
           set (elements that') \<subseteq> set (elements ?stored) \<union> {e \<in> set es. survives g obj idx e}"
    using Cons.prems by (intro Cons.IH) auto
  show ?case
  proof (cases "object e")
    case None
    with skip show ?thesis by auto
  next
    case (Some eo)
    with Cons.prems(1) obtain ei where ei: "index e = Some ei" and v: "val e \<noteq> None" by auto
    from Some ei Cons.prems(2) obtain r1 r2 where
      r1: "QueryAlias g obj eo = Some r1" and r2: "QueryAlias g idx ei = Some r2" by auto
    show ?thesis
    proof (cases "r1 = kNoAlias \<or> r2 = kNoAlias")
      case True
      with Some ei r1 r2 have sv: "survives g obj idx e" by (auto simp: survives_def)
      from True Some ei v r1 r2 store
      have "Kill_copy cfg g obj idx (e # es) that = Kill_copy cfg g obj idx es ?stored"
        by (auto simp: alias_with_def MayAlias_def)
      with keep sv set_update_subset[of "elements that" "next_index that" e]
      show ?thesis by auto
    next
      case False
      with Some ei v r1 r2
      have "Kill_copy cfg g obj idx (e # es) that = Kill_copy cfg g obj idx es that"
        by (auto simp: alias_with_def MayAlias_def)
      with skip show ?thesis by auto
    qed
  qed
qed

lemma Kill_scan_result:
  assumes "\<forall>e \<in> set es.
           (case object e of None \<Rightarrow> True | Some eo \<Rightarrow> QueryAlias g obj eo \<noteq> None)"
    and "Kill_copy cfg g obj idx (elements this) new_AbstractElements = Inr that"
  shows "Kill_scan cfg g obj idx this es = Inr ReturnThis \<and>
           (\<forall>e \<in> set es. \<forall>eo. object e = Some eo \<longrightarrow> QueryAlias g obj eo = Some kNoAlias) \<or>
         Kill_scan cfg g obj idx this es =
           Inr (ReturnNew (that\<lparr>next_index := next_index that mod kMaxTrackedElements\<rparr>))"
  using assms(1)
proof (induction es)
  case Nil
  then show ?case by simp
next
  case (Cons e es)
  show ?case
  proof (cases "object e")
    case None
    with Cons show ?thesis by auto
  next
    case (Some eo)
    with Cons.prems obtain r1 where r1: "QueryAlias g obj eo = Some r1" by auto
    show ?thesis
    proof (cases "r1 = kNoAlias")
      case True
      with Some r1 Cons show ?thesis by (auto simp: alias_with_def MayAlias_def)
    next
      case False
      with Some r1 assms(2) show ?thesis by (auto simp: alias_with_def MayAlias_def)
    qed
  qed
qed

lemma wf_elements_new: "wf_elements new_AbstractElements"
  by (simp add: wf_elements_def new_AbstractElements_def kMaxTrackedElements_def
      empty_Element_def list_all_iff)

lemma Kill_result:
  assumes wf: "wf_elements ring" and ret: "alias_queries_return g obj idx ring"
  shows "\<exists>r. Kill cfg g ring obj idx = Inr r \<and> wf_elements (deref ring r) \<and>
           (\<forall>e \<in> set (elements (deref ring r)).
              object e \<noteq> None \<longrightarrow> e \<in> set (elements ring) \<and> survives g obj idx e)"
proof -
  from wf have valid: "\<forall>e \<in> set (elements ring). object e = None \<or> (index e \<noteq> None \<and> val e \<noteq> None)"
    by (simp add: wf_elements_def list_all_iff)
  from ret have q: "\<forall>e \<in> set (elements ring). case object e of
             None \<Rightarrow> True
           | Some eo \<Rightarrow>
               QueryAlias g obj eo \<noteq> None \<and>
               (case index e of None \<Rightarrow> True | Some ei \<Rightarrow> QueryAlias g idx ei \<noteq> None)"
    by (simp add: alias_queries_return_def list_all_iff)
  from wf have room: "next_index new_AbstractElements + length (elements ring)
                        \<le> length (elements new_AbstractElements)"
    by (simp add: wf_elements_def new_AbstractElements_def)
  from Kill_copy_result[OF valid q room, of cfg] obtain that where
    copy: "Kill_copy cfg g obj idx (elements ring) new_AbstractElements = Inr that"
    and len: "length (elements that) = length (elements new_AbstractElements)"
    and sub: "set (elements that) \<subseteq> set (elements new_AbstractElements) \<union>
                {e \<in> set (elements ring). survives g obj idx e}"
    by blast
  let ?that = "that\<lparr>next_index := next_index that mod kMaxTrackedElements\<rparr>"
  from q have q1: "\<forall>e \<in> set (elements ring).
           (case object e of None \<Rightarrow> True | Some eo \<Rightarrow> QueryAlias g obj eo \<noteq> None)"
    by (auto split: option.splits)
  from Kill_scan_result[OF q1 copy]
  consider (same) "Kill cfg g ring obj idx = Inr ReturnThis"
      "\<forall>e \<in> set (elements ring). \<forall>eo. object e = Some eo \<longrightarrow> QueryAlias g obj eo = Some kNoAlias"
    | (new) "Kill cfg g ring obj idx = Inr (ReturnNew ?that)"
    by (auto simp: Kill_def)
  then show ?thesis
  proof cases
    case same
    from same(2) have "\<forall>e \<in> set (elements ring). object e \<noteq> None \<longrightarrow> survives g obj idx e"
      by (auto simp: survives_def)
    with same(1) wf show ?thesis by (simp add: deref_def)
  next
    case new
    have empties: "\<forall>e \<in> set (elements new_AbstractElements). object e = None"
      by (simp add: new_AbstractElements_def empty_Element_def)
    from sub empties valid
    have "\<forall>e \<in> set (elements that). object e = None \<or> (index e \<noteq> None \<and> val e \<noteq> None)"
      by blast
    with len have "wf_elements ?that"
      by (simp add: wf_elements_def new_AbstractElements_def kMaxTrackedElements_def list_all_iff)
    moreover from sub empties
    have "\<forall>e \<in> set (elements ?that). object e \<noteq> None \<longrightarrow>
            e \<in> set (elements ring) \<and> survives g obj idx e"
      by auto
    ultimately show ?thesis using new by (simp add: deref_def)
  qed
qed

lemma not_survives_same: "\<not> survives g obj idx (fact obj idx v)"
  by (simp add: survives_def fact_def QueryAlias_same)

lemma alias_queries_return_sub:
  assumes "alias_queries_return g obj idx ring"
    and "\<forall>e \<in> set (elements ring'). object e \<noteq> None \<longrightarrow> e \<in> set (elements ring)"
  shows "alias_queries_return g obj idx ring'"
  unfolding alias_queries_return_def list_all_iff
proof
  fix e assume e: "e \<in> set (elements ring')"
  show "case object e of
          None \<Rightarrow> True
        | Some eo \<Rightarrow>
            QueryAlias g obj eo \<noteq> None \<and>
            (case index e of None \<Rightarrow> True | Some ei \<Rightarrow> QueryAlias g idx ei \<noteq> None)"
  proof (cases "object e")
    case None
    then show ?thesis by simp
  next
    case (Some eo)
    with e assms(2) have "e \<in> set (elements ring)" by simp
    with assms(1) show ?thesis by (simp add: alias_queries_return_def list_all_iff)
  qed
qed

lemma Lookup_elements_returns:
  assumes "\<forall>e \<in> set es. object e = None \<or> (index e \<noteq> None \<and> val e \<noteq> None)"
    and "\<forall>e \<in> set es. case object e of
             None \<Rightarrow> True
           | Some eo \<Rightarrow>
               QueryAlias g obj eo \<noteq> None \<and>
               (case index e of None \<Rightarrow> True | Some ei \<Rightarrow> QueryAlias g idx ei \<noteq> None)"
  shows "\<exists>r. Lookup_elements cfg g obj idx es = Inr r"
  using assms
proof (induction es)
  case Nil
  then show ?case by simp
next
  case (Cons e es)
  then have IH: "\<exists>r. Lookup_elements cfg g obj idx es = Inr r" by simp
  show ?case
  proof (cases "object e")
    case None
    with IH show ?thesis by simp
  next
    case (Some eo)
    with Cons.prems(1) obtain ei where ei: "index e = Some ei" and v: "val e \<noteq> None" by auto
    from Some ei Cons.prems(2) obtain r1 r2 where
      "QueryAlias g obj eo = Some r1" "QueryAlias g idx ei = Some r2" by auto
    with Some ei v IH show ?thesis
      by (auto simp: alias_with_def MustAlias_def)
  qed
qed

lemma LookupElement_returns:
  assumes "\<forall>ring. state_elements state = Some ring \<longrightarrow>
             wf_elements ring \<and> alias_queries_return g obj idx ring"
  shows "\<exists>r. LookupElement cfg g state obj idx = Inr r"
proof (cases "state_elements state")
  case None
  then show ?thesis by (simp add: LookupElement_def)
next
  case (Some ring)
  with assms have "wf_elements ring" "alias_queries_return g obj idx ring" by simp_all
  then show ?thesis
    using Some Lookup_elements_returns[of "elements ring" g obj idx cfg]
    by (simp add: LookupElement_def Lookup_def wf_elements_def alias_queries_return_def
        list_all_iff)
qed

text \<open>\<open>KillElement\<close> returns a state that no longer holds a fact for \<open>(obj, idx)\<close>.\<close>

lemma KillElement_result:
  assumes "\<forall>ring. state_elements state = Some ring \<longrightarrow>
             wf_elements ring \<and> alias_queries_return g obj idx ring"
  shows "\<exists>killed. KillElement cfg g state obj idx = Inr killed \<and>
           state_fields (deref state killed) = state_fields state \<and>
           (\<forall>ring. state_elements (deref state killed) = Some ring \<longrightarrow>
              wf_elements ring \<and> alias_queries_return g obj idx ring) \<and>
           \<not> has_fact (deref state killed) (fact obj idx v)"
proof (cases "state_elements state")
  case None
  then show ?thesis by (simp add: KillElement_def deref_def has_fact_def)
next
  case (Some ring)
  with assms have wf: "wf_elements ring" and ret: "alias_queries_return g obj idx ring"
    by simp_all
  from Kill_result[OF wf ret, of cfg] obtain r where
    r: "Kill cfg g ring obj idx = Inr r" and wf': "wf_elements (deref ring r)"
    and sub: "\<forall>e \<in> set (elements (deref ring r)).
              object e \<noteq> None \<longrightarrow> e \<in> set (elements ring) \<and> survives g obj idx e"
    by blast
  let ?killed = "case r of
                   ReturnNew killed \<Rightarrow> ReturnNew (state\<lparr>state_elements := Some killed\<rparr>)
                 | ReturnThis \<Rightarrow> ReturnThis"
  have kill: "KillElement cfg g state obj idx = Inr ?killed"
    using Some r by (simp add: KillElement_def split: returns.splits)
  have el: "state_elements (deref state ?killed) = Some (deref ring r)"
    using Some by (cases r) (simp_all add: deref_def)
  have fl: "state_fields (deref state ?killed) = state_fields state"
    by (cases r) (simp_all add: deref_def)
  from sub have ret': "alias_queries_return g obj idx (deref ring r)"
    by (intro alias_queries_return_sub[OF ret]) simp
  have gone: "fact obj idx v \<notin> set (elements (deref ring r))"
  proof
    assume "fact obj idx v \<in> set (elements (deref ring r))"
    with sub have "survives g obj idx (fact obj idx v)" by (simp add: fact_def)
    then show False by (simp add: not_survives_same)
  qed
  from kill el fl wf' ret' gone show ?thesis
    by (intro exI[of _ ?killed]) (simp add: has_fact_def)
qed

text \<open>\<open>AddElement\<close> returns a state that holds the new fact.\<close>

lemma AddElement_result:
  assumes "\<forall>ring. state_elements state = Some ring \<longrightarrow>
             wf_elements ring \<and> alias_queries_return g obj idx ring"
  shows "\<exists>state'. AddElement cfg g state obj idx v = Inr state' \<and>
           has_fact state' (fact obj idx v)"
proof (cases "state_elements state")
  case None
  have "fact obj idx v \<in> set ((replicate kMaxTrackedElements empty_Element)[0 := fact obj idx v])"
    by (rule set_update_memI) (simp add: kMaxTrackedElements_def)
  with None show ?thesis
    by (simp add: AddElement_def new_AbstractElements3_def store_next_def
        new_AbstractElements_def has_fact_def fact_def kMaxTrackedElements_def)
next
  case (Some ring)
  with assms have wf: "wf_elements ring" and ret: "alias_queries_return g obj idx ring"
    by simp_all
  from Kill_result[OF wf ret, of cfg] obtain r where
    r: "Kill cfg g ring obj idx = Inr r" and wf': "wf_elements (deref ring r)"
    by blast
  let ?killed = "deref ring r"
  let ?stored = "?killed\<lparr>elements := (elements ?killed)[next_index ?killed := fact obj idx v],
                          next_index := next_index ?killed + 1\<rparr>"
  from wf' have inside: "next_index ?killed < length (elements ?killed)"
    by (simp add: wf_elements_def)
  then have store: "store_next ?killed (fact obj idx v) = Inr ?stored"
    by (simp add: store_next_def)
  let ?extended = "?stored\<lparr>next_index := next_index ?stored mod kMaxTrackedElements\<rparr>"
  have ext: "Extend cfg g ring obj idx v = Inr ?extended"
    using r store by (simp add: Extend_def fact_def)
  from inside have "fact obj idx v \<in> set (elements ?extended)"
    by (simp add: set_update_memI)
  with Some ext show ?thesis
    by (simp add: AddElement_def has_fact_def)
qed

lemma same_Element_eq: "same_Element x y \<longleftrightarrow> x = y"
  by (cases x, cases y) (auto simp: same_Element_def)

lemma Equals_facts:
  assumes "Equals this that" "object e \<noteq> None"
  shows "e \<in> set (elements this) \<longleftrightarrow> e \<in> set (elements that)"
  using assms
  by (auto simp: Equals_def list_all_iff list_ex_iff same_Element_eq)

lemma Equals_state_has_fact:
  assumes "Equals_state this that" "object e \<noteq> None"
  shows "has_fact this e \<longleftrightarrow> has_fact that e"
proof (cases "state_elements this")
  case None
  with assms(1) show ?thesis by (simp add: Equals_state_def has_fact_def)
next
  case (Some this_elements)
  with assms(1) obtain that_elements where
    "state_elements that = Some that_elements" "Equals that_elements this_elements"
    by (auto simp: Equals_state_def split: option.splits)
  with Some Equals_facts[OF this(2) assms(2)] show ?thesis by (simp add: has_fact_def)
qed

section \<open>Which stores to an element are recorded\<close>

lemma store_element_graph_simps [simp]:
  "store_element_graph rep 0 = node_of kStart (op_of 0 0 1 True kTagged 0) {0} [] [] []"
  "store_element_graph rep 2 =
     node_of kStoreElement (op_of 3 1 1 False rep 0) {0} [10, 12, 11] [0] []"
  by (simp_all add: store_element_graph_def)

lemma replicate_8: "replicate 8 x = [x, x, x, x, x, x, x, x]"
  by (simp add: numeral_eq_Suc)

lemma replicate_7: "replicate 7 x = [x, x, x, x, x, x, x]"
  by (simp add: numeral_eq_Suc)

lemma store_element_recorded:
  "rep \<in> {kFloat64, kSimd128, kTaggedSigned, kTaggedPointer, kTagged} \<Longrightarrow>
   ReduceStoreElement release_config (store_element_graph rep) [Some empty_state] 2 =
     Inr (Changed 2, [Some empty_state, None, Some (state_of_elements [fact 10 12 11])])"
  by (auto simp: ReduceStoreElement_def node_of_def op_of_def input_of_def Get_def
      UpdateState_def Set_def Let_def replicate_2 LookupElement_def KillElement_def
      AddElement_def empty_state_def deref_def new_AbstractElements3_def store_next_def
      new_AbstractElements_def kMaxTrackedElements_def state_of_elements_def ring_of_def
      fact_def replicate_8 replicate_7)

lemma store_element_not_recorded:
  "rep \<in> {kWord8, kWord16, kWord32, kWord64, kFloat32} \<Longrightarrow>
   ReduceStoreElement release_config (store_element_graph rep) [Some empty_state] 2 =
     Inr (Changed 2, [Some empty_state, None, Some empty_state])"
  by (auto simp: ReduceStoreElement_def node_of_def op_of_def input_of_def Get_def
      UpdateState_def Set_def Let_def replicate_2 LookupElement_def KillElement_def
      empty_state_def deref_def)

lemma has_fact_state_of_elements: "has_fact (state_of_elements [fact 10 12 11]) (fact 10 12 11)"
  by (simp add: has_fact_def state_of_elements_def ring_of_def empty_state_def)

text \<open>
  C3, as the claim states it, fails for \<open>Simd128\<close>, which is none of the four
  representations of the claim: the store is recorded, the state after node 2 holds the
  fact (10, 12, 11).
\<close>

theorem C3_counterexample:
  "element_representation (ElementAccessOf (op (store_element_graph kSimd128 2))) = kSimd128 \<and>
   ReduceStoreElement release_config (store_element_graph kSimd128) [Some empty_state] 2 =
     Inr (Changed 2, [Some empty_state, None, Some (state_of_elements [fact 10 12 11])]) \<and>
   Get [Some empty_state, None, Some (state_of_elements [fact 10 12 11])] 2 =
     Some (state_of_elements [fact 10 12 11]) \<and>
   has_fact (state_of_elements [fact 10 12 11]) (fact 10 12 11)"
  by (simp add: store_element_recorded has_fact_state_of_elements Get_def)
    (simp add: node_of_def op_of_def)

text \<open>
  C3, amended: let the state before a \<open>StoreElement\<close> node be known, its ring satisfy the
  ring invariant, the alias queries against its entries return, and the store not be
  redundant. For the representations \<open>None\<close> and \<open>Bit\<close> the handler reaches
  \<open>UNREACHABLE()\<close>. For every other representation it returns \<open>Changed\<close> or \<open>NoChange\<close>,
  and the state of the node holds the fact (object, index, new value) if and only if the
  representation is \<open>Float64\<close>, \<open>Simd128\<close>, \<open>TaggedSigned\<close>, \<open>TaggedPointer\<close> or \<open>Tagged\<close>;
  for \<open>Word8\<close>, \<open>Word16\<close>, \<open>Word32\<close>, \<open>Word64\<close> and \<open>Float32\<close> the fact is killed and
  nothing is recorded.
\<close>

theorem C3_StoreElement_records:
  assumes pred: "Get node_states (GetEffectInput (g node) 0) = Some state"
    and wf: "\<forall>ring. state_elements state = Some ring \<longrightarrow>
               wf_elements ring \<and>
               alias_queries_return g (GetValueInput (g node) 0) (GetValueInput (g node) 1) ring"
    and kept: "LookupElement cfg g state (GetValueInput (g node) 0) (GetValueInput (g node) 1)
                 \<noteq> Inr (Some (GetValueInput (g node) 2))"
  shows "(element_representation (ElementAccessOf (op (g node))) \<in> {kNone, kBit} \<longrightarrow>
            ReduceStoreElement cfg g node_states node = Inl Unreachable) \<and>
         (element_representation (ElementAccessOf (op (g node))) \<notin> {kNone, kBit} \<longrightarrow>
            (\<exists>reduction node_states' post.
               ReduceStoreElement cfg g node_states node = Inr (reduction, node_states') \<and>
               (reduction = Changed node \<or> reduction = NoChange) \<and>
               Get node_states' node = Some post \<and>
               (has_fact post (fact (GetValueInput (g node) 0) (GetValueInput (g node) 1)
                                 (GetValueInput (g node) 2))
                \<longleftrightarrow> element_representation (ElementAccessOf (op (g node))) \<in>
                      {kFloat64, kSimd128, kTaggedSigned, kTaggedPointer, kTagged})))"
proof -
  let ?obj = "GetValueInput (g node) 0"
  let ?idx = "GetValueInput (g node) 1"
  let ?v = "GetValueInput (g node) 2"
  let ?rep = "element_representation (ElementAccessOf (op (g node)))"
  let ?fact = "fact ?obj ?idx ?v"
  have nonempty: "object ?fact \<noteq> None" by (simp add: fact_def)
  from LookupElement_returns[OF wf] obtain old where
    old: "LookupElement cfg g state ?obj ?idx = Inr old" by blast
  with kept have ne: "old \<noteq> Some ?v" by simp
  from KillElement_result[OF wf, of cfg ?v] obtain killed where
    kill: "KillElement cfg g state ?obj ?idx = Inr killed"
    and wf1: "\<forall>ring. state_elements (deref state killed) = Some ring \<longrightarrow>
                wf_elements ring \<and> alias_queries_return g ?obj ?idx ring"
    and gone: "\<not> has_fact (deref state killed) ?fact"
    by blast
  from AddElement_result[OF wf1, of cfg ?v] obtain added where
    add: "AddElement cfg g (deref state killed) ?obj ?idx ?v = Inr added"
    and there: "has_fact added ?fact"
    by blast
  have posted: "\<exists>reduction node_states' post.
      UpdateState node_states node s = (reduction, node_states') \<and>
      (reduction = Changed node \<or> reduction = NoChange) \<and>
      Get node_states' node = Some post \<and> (has_fact post ?fact \<longleftrightarrow> has_fact s ?fact)" for s
  proof -
    obtain reduction node_states' where
      upd: "UpdateState node_states node s = (reduction, node_states')"
      by (cases "UpdateState node_states node s") blast
    from UpdateState_post[OF upd] obtain post where
      "reduction = Changed node \<or> reduction = NoChange"
      "Get node_states' node = Some post" "post = s \<or> Equals_state s post"
      by blast
    with upd Equals_state_has_fact[OF _ nonempty, of s post] show ?thesis by blast
  qed
  have switch: "ReduceStoreElement cfg g node_states node =
      and_then
        (case ?rep of
           kNone \<Rightarrow> Inl Unreachable
         | kBit \<Rightarrow> Inl Unreachable
         | kWord8 \<Rightarrow> Inr (deref state killed)
         | kWord16 \<Rightarrow> Inr (deref state killed)
         | kWord32 \<Rightarrow> Inr (deref state killed)
         | kWord64 \<Rightarrow> Inr (deref state killed)
         | kFloat32 \<Rightarrow> Inr (deref state killed)
         | kFloat64 \<Rightarrow> Inr added
         | kSimd128 \<Rightarrow> Inr added
         | kTaggedSigned \<Rightarrow> Inr added
         | kTaggedPointer \<Rightarrow> Inr added
         | kTagged \<Rightarrow> Inr added)
        (\<lambda>state. Inr (UpdateState node_states node state))"
    using pred old ne kill add
    by (cases ?rep) (simp_all add: ReduceStoreElement_def Let_def)
  show ?thesis
  proof (cases ?rep)
    case kNone
    then show ?thesis by (simp add: switch)
  next
    case kBit
    then show ?thesis by (simp add: switch)
  next
    case kWord8
    with posted[of "deref state killed"] gone show ?thesis by (auto simp: switch)
  next
    case kWord16
    with posted[of "deref state killed"] gone show ?thesis by (auto simp: switch)
  next
    case kWord32
    with posted[of "deref state killed"] gone show ?thesis by (auto simp: switch)
  next
    case kWord64
    with posted[of "deref state killed"] gone show ?thesis by (auto simp: switch)
  next
    case kFloat32
    with posted[of "deref state killed"] gone show ?thesis by (auto simp: switch)
  next
    case kFloat64
    with posted[of added] there show ?thesis by (auto simp: switch)
  next
    case kSimd128
    with posted[of added] there show ?thesis by (auto simp: switch)
  next
    case kTaggedSigned
    with posted[of added] there show ?thesis by (auto simp: switch)
  next
    case kTaggedPointer
    with posted[of added] there show ?thesis by (auto simp: switch)
  next
    case kTagged
    with posted[of added] there show ?thesis by (auto simp: switch)
  qed
qed

lemma known_element_hypotheses:
  "Get [Some (state_of_elements [fact 10 12 13])] (GetEffectInput (store_element_graph rep 2) 0)
     = Some (state_of_elements [fact 10 12 13])"
  "\<forall>ring. state_elements (state_of_elements [fact 10 12 13]) = Some ring \<longrightarrow>
     wf_elements ring \<and>
     alias_queries_return (store_element_graph rep)
       (GetValueInput (store_element_graph rep 2) 0)
       (GetValueInput (store_element_graph rep 2) 1) ring"
  "LookupElement release_config (store_element_graph rep) (state_of_elements [fact 10 12 13])
     (GetValueInput (store_element_graph rep 2) 0) (GetValueInput (store_element_graph rep 2) 1)
     \<noteq> Inr (Some (GetValueInput (store_element_graph rep 2) 2))"
  by (simp_all add: node_of_def input_of_def Get_def state_of_elements_def empty_state_def
      ring_of_def wf_elements_def alias_queries_return_def kMaxTrackedElements_def fact_def
      empty_Element_def QueryAlias_same LookupElement_def Lookup_def alias_with_def
      MustAlias_def replicate_7)

theorem C3_witness:
  "ReduceStoreElement release_config (store_element_graph kBit)
     [Some (state_of_elements [fact 10 12 13])] 2 = Inl Unreachable \<and>
   (\<exists>reduction node_states' post.
      ReduceStoreElement release_config (store_element_graph kTagged)
        [Some (state_of_elements [fact 10 12 13])] 2 = Inr (reduction, node_states') \<and>
      Get node_states' 2 = Some post \<and> has_fact post (fact 10 12 11)) \<and>
   (\<exists>reduction node_states' post.
      ReduceStoreElement release_config (store_element_graph kWord8)
        [Some (state_of_elements [fact 10 12 13])] 2 = Inr (reduction, node_states') \<and>
      Get node_states' 2 = Some post \<and> \<not> has_fact post (fact 10 12 11))"
  using C3_StoreElement_records [OF known_element_hypotheses, of kBit]
        C3_StoreElement_records [OF known_element_hypotheses, of kTagged]
        C3_StoreElement_records [OF known_element_hypotheses, of kWord8]
  by (simp add: node_of_def op_of_def input_of_def) blast

section \<open>Merge and Equals\<close>

lemma store_next_filled:
  "length xs < n \<Longrightarrow> store_next (filled n xs) e = Inr (filled n (xs @ [e]))"
proof -
  assume "length xs < n"
  then obtain m where m: "n - length xs = Suc m" by (cases "n - length xs") simp_all
  then have "n - Suc (length xs) = m" by simp
  with m \<open>length xs < n\<close> show ?thesis
    by (simp add: store_next_def filled_def list_update_append)
qed

lemma Merge_inner_filled:
  "length xs + count_list others e \<le> n \<Longrightarrow>
   Merge_inner e others (filled n xs) = Inr (filled n (xs @ replicate (count_list others e) e))"
proof (induction others arbitrary: xs)
  case Nil
  then show ?case by simp
next
  case (Cons t others)
  show ?case
  proof (cases "t = e")
    case True
    with Cons.prems have room: "length xs < n" "length (xs @ [e]) + count_list others e \<le> n"
      by simp_all
    from True Cons.IH[OF room(2)] store_next_filled[OF room(1)]
    show ?thesis by (simp add: same_Element_eq replicate_app_Cons_same)
  next
    case False
    with Cons show ?thesis by (simp add: same_Element_eq) 
  qed
qed

lemma Merge_outer_filled:
  "length xs + length these \<le> n \<Longrightarrow>
   \<forall>e \<in> set these. object e \<noteq> None \<longrightarrow> count_list others e \<le> 1 \<Longrightarrow>
   Merge_outer these others (filled n xs) =
     Inr (filled n (xs @ filter (\<lambda>e. object e \<noteq> None \<and> e \<in> set others) these))"
proof (induction these arbitrary: xs)
  case Nil
  then show ?case by simp
next
  case (Cons e these)
  show ?case
  proof (cases "object e")
    case None
    with Cons show ?thesis by simp
  next
    case (Some eo)
    then have False: "object e \<noteq> None" by simp
    from Some have unfold: "Merge_outer (e # these) others (filled n xs) =
        and_then (Merge_inner e others (filled n xs)) (Merge_outer these others)" by simp
    from Some Cons.prems(2) have c: "count_list others e \<le> 1" by simp
    show ?thesis
    proof (cases "e \<in> set others")
      case True
      with c have one: "count_list others e = 1"
        by (metis count_list_0_iff le_antisym less_one not_less)
      with Cons.prems(1) have "length xs + count_list others e \<le> n" by simp
      from Merge_inner_filled[OF this] one
      have inner: "Merge_inner e others (filled n xs) = Inr (filled n (xs @ [e]))" by simp
      from Cons.prems have "length (xs @ [e]) + length these \<le> n"
        "\<forall>e \<in> set these. object e \<noteq> None \<longrightarrow> count_list others e \<le> 1" by simp_all
      from Cons.IH[OF this] have
        "Merge_outer these others (filled n (xs @ [e])) =
           Inr (filled n ((xs @ [e]) @ filter (\<lambda>e. object e \<noteq> None \<and> e \<in> set others) these))" .
      with unfold inner Some True show ?thesis by simp
    next
      case notin: False
      then have zero: "count_list others e = 0" by (simp add: count_list_0_iff)
      with Cons.prems(1) have "length xs + count_list others e \<le> n" by simp
      from Merge_inner_filled[OF this] zero
      have inner: "Merge_inner e others (filled n xs) = Inr (filled n xs)" by simp
      from Cons.prems have "length xs + length these \<le> n"
        "\<forall>e \<in> set these. object e \<noteq> None \<longrightarrow> count_list others e \<le> 1" by simp_all
      from Cons.IH[OF this] have
        "Merge_outer these others (filled n xs) =
           Inr (filled n (xs @ filter (\<lambda>e. object e \<noteq> None \<and> e \<in> set others) these))" .
      with unfold inner Some notin show ?thesis by simp
    qed
  qed
qed

lemma new_AbstractElements_filled: "new_AbstractElements = filled kMaxTrackedElements []"
  by (simp add: new_AbstractElements_def filled_def)

lemma facts_filled: "facts (filled n xs) = {e \<in> set xs. object e \<noteq> None}"
  by (auto simp: facts_def filled_def empty_Element_def)

lemma facts_next_index [simp]: "facts (ring\<lparr>next_index := k\<rparr>) = facts ring"
  by (simp add: facts_def)

lemma count_list_filter: "P e \<Longrightarrow> count_list (filter P xs) e = count_list xs e"
  by (induction xs) auto

lemma distinct_count_le_1: "distinct xs \<Longrightarrow> count_list xs e \<le> 1"
  by (induction xs) auto

lemma Equals_iff_facts: "Equals this that \<longleftrightarrow> facts this = facts that"
  by (auto simp: Equals_def facts_def list_all_iff list_ex_iff same_Element_eq)

lemma Equals_refl: "Equals this this"
  by (simp add: Equals_iff_facts)

lemma Equals_field_refl: "Equals_field this this"
  by (simp add: Equals_field_def)

lemma Equals_state_refl: "Equals_state this this"
  by (auto simp: Equals_state_def Equals_refl Equals_field_refl list_all_iff
      split: option.splits)

text \<open>
  The merge of two rings returns, and it holds the facts of both operands, when the
  receiver's array has no more than \<open>kMaxTrackedElements\<close> entries and the argument holds
  no fact twice.
\<close>

lemma Merge_facts:
  assumes len: "length (elements this) \<le> kMaxTrackedElements"
    and dist: "distinct (filter (\<lambda>e. object e \<noteq> None) (elements that))"
  shows "\<exists>r. Merge this that = Inr r \<and> facts (deref this r) = facts this \<inter> facts that"
proof (cases "Equals this that")
  case True
  then have "facts this = facts that" by (simp add: Equals_iff_facts)
  with True show ?thesis by (simp add: Merge_def deref_def)
next
  case False
  have once: "\<forall>e \<in> set (elements this). object e \<noteq> None \<longrightarrow> count_list (elements that) e \<le> 1"
  proof (intro ballI impI)
    fix e assume "e \<in> set (elements this)" "object e \<noteq> None"
    from count_list_filter[of "\<lambda>e. object e \<noteq> None" e "elements that", OF this(2)]
      distinct_count_le_1[OF dist, of e]
    show "count_list (elements that) e \<le> 1" by simp
  qed
  from len have room: "length ([] :: Element list) + length (elements this) \<le> kMaxTrackedElements"
    by simp
  let ?kept = "filter (\<lambda>e. object e \<noteq> None \<and> e \<in> set (elements that)) (elements this)"
  from Merge_outer_filled[OF room once]
  have "Merge_outer (elements this) (elements that) new_AbstractElements =
          Inr (filled kMaxTrackedElements ?kept)"
    by (simp add: new_AbstractElements_filled)
  with False have "Merge this that =
      Inr (ReturnNew (filled kMaxTrackedElements ?kept
             \<lparr>next_index := next_index (filled kMaxTrackedElements ?kept) mod kMaxTrackedElements\<rparr>))"
    by (simp add: Merge_def)
  moreover have "facts (filled kMaxTrackedElements ?kept
             \<lparr>next_index := next_index (filled kMaxTrackedElements ?kept) mod kMaxTrackedElements\<rparr>)
           = facts this \<inter> facts that"
    unfolding facts_next_index facts_filled by (auto simp: facts_def)
  ultimately show ?thesis by (simp add: deref_def)
qed

lemma Merge_same: "Merge this this = Inr ReturnThis"
  by (simp add: Merge_def Equals_refl)

lemma Merge_field_info:
  "set (info_for_node (Merge_field this that)) = set (info_for_node this) \<inter> set (info_for_node that)"
  by (auto simp: Merge_field_def)

lemma Merge_field_same: "Merge_field this this = this"
  by (simp add: Merge_field_def)

text \<open>The loop over the slots merges every slot of the list and leaves the rest alone.\<close>

lemma fold_Merge_slot:
  "distinct js \<Longrightarrow>
   state_elements (fold (Merge_slot that) js this) = state_elements this \<and>
   state_fields (fold (Merge_slot that) js this) j =
     (if j \<in> set js
      then (case state_fields this j of
              None \<Rightarrow> None
            | Some this_field \<Rightarrow>
                (case state_fields that j of
                   None \<Rightarrow> None
                 | Some that_field \<Rightarrow> Some (Merge_field this_field that_field)))
      else state_fields this j)"
proof (induction js arbitrary: this)
  case Nil
  then show ?case by simp
next
  case (Cons i js)
  then have "i \<notin> set js" "distinct js" by simp_all
  have slot: "state_elements (Merge_slot that i this) = state_elements this"
    "state_fields (Merge_slot that i this) j =
       (if j = i
        then (case state_fields this j of
                None \<Rightarrow> None
              | Some this_field \<Rightarrow>
                  (case state_fields that j of
                     None \<Rightarrow> None
                   | Some that_field \<Rightarrow> Some (Merge_field this_field that_field)))
        else state_fields this j)"
    by (auto simp: Merge_slot_def split: option.splits)
  from Cons.IH[OF \<open>distinct js\<close>, of "Merge_slot that i this"] slot \<open>i \<notin> set js\<close>
  show ?case by auto
qed

lemma Merge_state_result:
  assumes "\<forall>a b. state_elements this = Some a \<and> state_elements that = Some b \<longrightarrow>
             length (elements b) \<le> kMaxTrackedElements \<and>
             distinct (filter (\<lambda>e. object e \<noteq> None) (elements a))"
  shows "\<exists>merged. Merge_state this that = Inr merged \<and>
           (case state_elements this of
              None \<Rightarrow> state_elements merged = None
            | Some a \<Rightarrow>
                (case state_elements that of
                   None \<Rightarrow> state_elements merged = None
                 | Some b \<Rightarrow> \<exists>m. state_elements merged = Some m \<and> facts m = facts a \<inter> facts b)) \<and>
           (\<forall>j < kMaxTrackedFields.
              state_fields merged j =
                (case state_fields this j of
                   None \<Rightarrow> None
                 | Some this_field \<Rightarrow>
                     (case state_fields that j of
                        None \<Rightarrow> None
                      | Some that_field \<Rightarrow> Some (Merge_field this_field that_field))))"
proof -
  have d: "distinct slots" by (simp add: slots_def)
  have in_slots: "j \<in> set slots \<longleftrightarrow> j < kMaxTrackedFields" for j by (simp add: slots_def)
  show ?thesis
  proof (cases "state_elements this")
    case None
    then have "Merge_state this that = Inr (fold (Merge_slot that) slots this)"
      by (simp add: Merge_state_def)
    with None fold_Merge_slot[OF d, of that this] show ?thesis
      by (simp add: in_slots)
  next
    case a: (Some a)
    show ?thesis
    proof (cases "state_elements that")
      case None
      with a have "Merge_state this that =
          Inr (fold (Merge_slot that) slots (this\<lparr>state_elements := None\<rparr>))"
        by (simp add: Merge_state_def)
      with a None fold_Merge_slot[OF d, of that "this\<lparr>state_elements := None\<rparr>"] show ?thesis
        by (simp add: in_slots)
    next
      case b: (Some b)
      with a assms have "length (elements b) \<le> kMaxTrackedElements"
        "distinct (filter (\<lambda>e. object e \<noteq> None) (elements a))" by simp_all
      from Merge_facts[OF this] obtain r where
        r: "Merge b a = Inr r" and f: "facts (deref b r) = facts b \<inter> facts a" by blast
      with a b have "Merge_state this that =
          Inr (fold (Merge_slot that) slots (this\<lparr>state_elements := Some (deref b r)\<rparr>))"
        by (simp add: Merge_state_def)
      with a b f fold_Merge_slot[OF d, of that "this\<lparr>state_elements := Some (deref b r)\<rparr>"]
      show ?thesis by (auto simp: in_slots)
    qed
  qed
qed

lemma Equals_field_Merge_field:
  "Equals_field (Merge_field this that) (Merge_field that this)"
  by (auto simp: Equals_field_def Merge_field_info)

text \<open>
  C2: for two abstract states whose rings hold no fact twice, merging \<open>B\<close> into a copy of
  \<open>A\<close> and merging \<open>A\<close> into a copy of \<open>B\<close> both return, and each result \<open>Equals\<close> the
  other; merging a state with itself returns a state that \<open>Equals\<close> the original.
  \<open>Equals\<close> compares the ring and every field slot. That a ring holds no fact twice is
  part of the invariant that every operation on rings keeps (section "The ring invariant
  is kept" below); a ring that held a fact three times could make \<open>Merge\<close> write past its
  array.
\<close>

theorem C2_Merge_commutative_idempotent:
  assumes A: "\<forall>ring. state_elements A = Some ring \<longrightarrow> distinct_facts ring"
    and B: "\<forall>ring. state_elements B = Some ring \<longrightarrow> distinct_facts ring"
  shows "\<exists>AB BA AA.
           Merge_state A B = Inr AB \<and> Merge_state B A = Inr BA \<and>
           Equals_state AB BA \<and> Equals_state BA AB \<and>
           Merge_state A A = Inr AA \<and> Equals_state AA A"
proof -
  let ?merged = "\<lambda>this that j.
     case state_fields this j of
       None \<Rightarrow> None
     | Some this_field \<Rightarrow>
         (case state_fields that j of
            None \<Rightarrow> None
          | Some that_field \<Rightarrow> Some (Merge_field this_field that_field))"
  have opA: "\<forall>a b. state_elements A = Some a \<and> state_elements B = Some b \<longrightarrow>
             length (elements b) \<le> kMaxTrackedElements \<and>
             distinct (filter (\<lambda>e. object e \<noteq> None) (elements a))"
    using A B by (simp add: distinct_facts_def)
  have opB: "\<forall>a b. state_elements B = Some a \<and> state_elements A = Some b \<longrightarrow>
             length (elements b) \<le> kMaxTrackedElements \<and>
             distinct (filter (\<lambda>e. object e \<noteq> None) (elements a))"
    using A B by (simp add: distinct_facts_def)
  from Merge_state_result[OF opA] obtain AB where
    AB: "Merge_state A B = Inr AB"
    and ABe: "case state_elements A of
              None \<Rightarrow> state_elements AB = None
            | Some a \<Rightarrow>
                (case state_elements B of
                   None \<Rightarrow> state_elements AB = None
                 | Some b \<Rightarrow> \<exists>m. state_elements AB = Some m \<and> facts m = facts a \<inter> facts b)"
    and ABf: "\<forall>j < kMaxTrackedFields. state_fields AB j = ?merged A B j"
    by blast
  from Merge_state_result[OF opB] obtain BA where
    BA: "Merge_state B A = Inr BA"
    and BAe: "case state_elements B of
              None \<Rightarrow> state_elements BA = None
            | Some a \<Rightarrow>
                (case state_elements A of
                   None \<Rightarrow> state_elements BA = None
                 | Some b \<Rightarrow> \<exists>m. state_elements BA = Some m \<and> facts m = facts a \<inter> facts b)"
    and BAf: "\<forall>j < kMaxTrackedFields. state_fields BA j = ?merged B A j"
    by blast
  have rings: "(case state_elements AB of
         Some x \<Rightarrow> (case state_elements BA of None \<Rightarrow> False | Some y \<Rightarrow> Equals y x)
       | None \<Rightarrow> state_elements BA = None) \<and>
      (case state_elements BA of
         Some x \<Rightarrow> (case state_elements AB of None \<Rightarrow> False | Some y \<Rightarrow> Equals y x)
       | None \<Rightarrow> state_elements AB = None)"
    using ABe BAe
    by (cases "state_elements A"; cases "state_elements B")
      (auto simp: Equals_iff_facts)
  have slot: "(case state_fields AB j of
           Some x \<Rightarrow> (case state_fields BA j of None \<Rightarrow> False | Some y \<Rightarrow> Equals_field y x)
         | None \<Rightarrow> state_fields BA j = None) \<and>
        (case state_fields BA j of
           Some x \<Rightarrow> (case state_fields AB j of None \<Rightarrow> False | Some y \<Rightarrow> Equals_field y x)
         | None \<Rightarrow> state_fields AB j = None)"
    if "j < kMaxTrackedFields" for j
    using that ABf BAf
    by (cases "state_fields A j"; cases "state_fields B j")
      (simp_all add: Equals_field_Merge_field)
  have commute: "Equals_state AB BA" "Equals_state BA AB"
    using rings slot by (simp_all add: Equals_state_def list_all_iff slots_def)
  have d: "distinct slots" by (simp add: slots_def)
  let ?AA = "fold (Merge_slot A) slots A"
  have AA: "Merge_state A A = Inr ?AA"
  proof (cases "state_elements A")
    case None
    then show ?thesis by (simp add: Merge_state_def)
  next
    case (Some a)
    then have eq: "A\<lparr>state_elements := Some a\<rparr> = A" by simp
    from Some have "Merge_state A A =
        Inr (fold (Merge_slot A) slots (A\<lparr>state_elements := Some a\<rparr>))"
      by (simp add: Merge_state_def Merge_same deref_def)
    then show ?thesis unfolding eq .
  qed
  have AAe: "state_elements ?AA = state_elements A"
    using fold_Merge_slot[OF d, of A A] by simp
  have AAf: "state_fields ?AA j = state_fields A j" for j
    using fold_Merge_slot[OF d, of A A j]
    by (cases "state_fields A j") (simp_all add: Merge_field_same)
  have idem: "Equals_state ?AA A"
    by (auto simp: Equals_state_def AAe AAf Equals_refl Equals_field_refl list_all_iff
        split: option.splits)
  from AB BA commute AA idem show ?thesis by blast
qed

lemma merge_operands_distinct:
  "\<forall>ring. state_elements merge_left = Some ring \<longrightarrow> distinct_facts ring"
  "\<forall>ring. state_elements merge_right = Some ring \<longrightarrow> distinct_facts ring"
  by (simp_all add: merge_left_def merge_right_def distinct_facts_def ring_of_def fact_def
      empty_Element_def kMaxTrackedElements_def)

theorem C2_witness:
  "\<exists>AB BA AA.
     Merge_state merge_left merge_right = Inr AB \<and>
     Merge_state merge_right merge_left = Inr BA \<and>
     Equals_state AB BA \<and> Equals_state BA AB \<and>
     Merge_state merge_left merge_left = Inr AA \<and> Equals_state AA merge_left"
  by (rule C2_Merge_commutative_idempotent [OF merge_operands_distinct])

section \<open>The state at a loop header\<close>

lemma Kill_field_copy_set:
  "distinct (map fst ps) \<Longrightarrow> fst ` set ps \<inter> fst ` set (info_for_node that) = {} \<Longrightarrow>
   Kill_field_copy g obj ps that = Inr that' \<Longrightarrow>
   set (info_for_node that') =
     set (info_for_node that) \<union> {p \<in> set ps. QueryAlias g obj (fst p) = Some kNoAlias}"
proof (induction ps arbitrary: that)
  case Nil
  then show ?case by simp
next
  case (Cons p ps)
  from Cons.prems(3) obtain may where may: "MayAlias g obj (fst p) = Some may"
    by (auto simp: and_then_eq_Inr)
  from Cons.prems(1) have d: "distinct (map fst ps)" and fresh: "fst p \<notin> fst ` set ps" by auto
  show ?case
  proof (cases may)
    case True
    with may Cons.prems(3) have rec: "Kill_field_copy g obj ps that = Inr that'" by simp
    from Cons.prems(2) have "fst ` set ps \<inter> fst ` set (info_for_node that) = {}" by auto
    from Cons.IH[OF d this rec] True may show ?thesis
      by (auto simp: MayAlias_def)
  next
    case False
    from Cons.prems(2) have new: "fst p \<notin> fst ` set (info_for_node that)" by auto
    then have ins: "insert_pair p that = that\<lparr>info_for_node := info_for_node that @ [p]\<rparr>"
      by (simp add: insert_pair_def)
    from False may Cons.prems(3)
    have rec: "Kill_field_copy g obj ps (insert_pair p that) = Inr that'" by simp
    from Cons.prems(2) fresh
    have "fst ` set ps \<inter> fst ` set (info_for_node (insert_pair p that)) = {}"
      by (auto simp: ins)
    from Cons.IH[OF d this rec] False may show ?thesis
      by (auto simp: ins MayAlias_def)
  qed
qed

text \<open>What \<open>KillField\<close> leaves: everything but the pairs of the slot whose key may alias.\<close>

lemma KillField_result:
  assumes k: "k < kMaxTrackedFields"
    and terminate: "\<forall>field. state_fields state k = Some field \<longrightarrow>
                      (\<forall>p \<in> set (info_for_node field). QueryAlias g obj (fst p) \<noteq> None)"
    and keys: "\<forall>field. state_fields state k = Some field \<longrightarrow>
                 distinct (map fst (info_for_node field))"
  shows "\<exists>killed. KillField g state obj k = Inr killed \<and>
           state_elements (deref state killed) = state_elements state \<and>
           (\<forall>j. j \<noteq> k \<longrightarrow> state_fields (deref state killed) j = state_fields state j) \<and>
           (state_fields state k = None \<longrightarrow> state_fields (deref state killed) k = None) \<and>
           (\<forall>field. state_fields state k = Some field \<longrightarrow>
              (\<exists>field'. state_fields (deref state killed) k = Some field' \<and>
                 set (info_for_node field') =
                   {p \<in> set (info_for_node field). QueryAlias g obj (fst p) = Some kNoAlias})) \<and>
           LookupField g (deref state killed) obj k = Inr None"
proof (cases "state_fields state k")
  case None
  with k show ?thesis
    by (intro exI[of _ ReturnThis]) (simp add: KillField_def deref_def LookupField_def)
next
  case (Some field)
  with terminate keys
  have t: "\<forall>p \<in> set (info_for_node field). QueryAlias g obj (fst p) \<noteq> None"
    and d: "distinct (map fst (info_for_node field))" by simp_all
  from Kill_field_returns[OF t] obtain r where r: "Kill_field g field obj = Inr r" by blast
  let ?killed = "case r of ReturnNew that_field \<Rightarrow>
                   ReturnNew (state\<lparr>state_fields := (state_fields state)(k := Some that_field)\<rparr>)
                 | ReturnThis \<Rightarrow> ReturnThis"
  have kill: "KillField g state obj k = Inr ?killed"
    using k Some r by (simp add: KillField_def split: returns.splits)
  have left: "state_fields (deref state ?killed) k = Some (deref field r)"
    using Some by (cases r) (simp_all add: deref_def)
  have others: "j \<noteq> k \<Longrightarrow> state_fields (deref state ?killed) j = state_fields state j" for j
    by (cases r) (simp_all add: deref_def)
  have ring: "state_elements (deref state ?killed) = state_elements state"
    by (cases r) (simp_all add: deref_def)
  have no: "\<forall>p \<in> set (info_for_node (deref field r)). QueryAlias g obj (fst p) = Some kNoAlias"
    by (rule Kill_field_no_alias_left[OF r])
  have kept: "set (info_for_node (deref field r)) =
      {p \<in> set (info_for_node field). QueryAlias g obj (fst p) = Some kNoAlias}"
  proof (cases r)
    case ReturnThis
    with no show ?thesis by (auto simp: deref_def)
  next
    case (ReturnNew that)
    with r have "Kill_field_copy g obj (info_for_node field) new_AbstractField = Inr that"
      by (auto simp: Kill_field_def dest: Kill_field_scan_new)
    from Kill_field_copy_set[OF d _ this] ReturnNew show ?thesis
      by (simp add: new_AbstractField_def deref_def)
  qed
  from no have "\<forall>p \<in> set (info_for_node (deref field r)).
      \<exists>r. QueryAlias g obj (fst p) = Some r \<and> r \<noteq> kMustAlias" by simp
  from Lookup_pairs_none[OF this] k left
  have look: "LookupField g (deref state ?killed) obj k = Inr None"
    by (simp add: LookupField_def Lookup_field_def)
  from kill ring others left kept look Some show ?thesis
    by (intro exI[of _ ?killed]) simp
qed

lemma loop_body_not_phi: "n \<in> loop_body g node \<Longrightarrow> n \<noteq> node"
  by (induction rule: loop_body.induct) simp_all

lemma scan_invariant_done:
  assumes "scan_invariant g node store entry killed [] visited state"
  shows "loop_body g node \<subseteq> visited"
proof
  fix n assume "n \<in> loop_body g node"
  then show "n \<in> visited"
  proof (induction rule: loop_body.induct)
    case (back_edge i)
    with assms show ?case by (simp add: scan_invariant_def)
  next
    case (effect_input n m)
    from effect_input(1) have "n \<noteq> node" by (rule loop_body_not_phi)
    with assms effect_input show ?case by (auto simp: scan_invariant_def)
  qed
qed

lemma scan_invariant_skip:
  assumes "scan_invariant g node store entry killed (current # queue) visited state"
    and "current \<in> visited"
  shows "scan_invariant g node store entry killed queue visited state"
  using assms by (auto simp: scan_invariant_def)

lemma scan_invariant_visit:
  assumes inv: "scan_invariant g node store entry killed (current # queue) visited state"
    and new: "current \<notin> visited"
  shows "scan_invariant g node store entry killed (queue @ effect_inputs g current)
           (insert current visited) (if current = store then killed else state)"
proof -
  from inv new have body: "current \<in> loop_body g node"
    by (auto simp: scan_invariant_def)
  have "set (effect_inputs g current) \<subseteq> insert node (loop_body g node)"
    using body by (auto intro: loop_body.effect_input)
  with inv new show ?thesis
    unfolding scan_invariant_def by auto
qed

text \<open>
  The scan ends and returns the killed state: induction on the number of nodes of the body
  not yet visited, and on the queue.
\<close>

lemma ComputeLoopState_while_returns:
  assumes fin: "finite (loop_body g node)"
    and store: "store \<in> loop_body g node" "opcode (g store) = kStoreField"
      "\<not> kNoWrite (op (g store))"
    and only: "\<forall>n \<in> loop_body g node. n \<noteq> store \<longrightarrow> kNoWrite (op (g n))"
    and tracked: "FieldIndexOf cfg (FieldAccessOf (op (g store))) = Inr (int k)"
    and kill: "KillField g entry (GetValueInput (g store) 0) k = Inr r"
  shows "card (insert node (loop_body g node) - visited) = n \<Longrightarrow>
         scan_invariant g node store entry (deref entry r) queue visited state \<Longrightarrow>
         ComputeLoopState_while cfg g queue visited state = Some (Inr (deref entry r))"
proof (induction n arbitrary: queue visited state rule: less_induct)
  case (less n)
  from less.prems(2) show ?case
  proof (induction queue)
    case Nil
    from scan_invariant_done[OF Nil] store(1) have "store \<in> visited" by auto
    with Nil have "state = deref entry r" by (simp add: scan_invariant_def)
    then show ?case by (subst ComputeLoopState_while.simps) simp
  next
    case (Cons current queue)
    show ?case
    proof (cases "current \<in> visited")
      case True
      from Cons.IH[OF scan_invariant_skip[OF Cons.prems True]] True
      show ?thesis by (subst ComputeLoopState_while.simps) simp
    next
      case False
      from Cons.prems False have body: "current \<in> loop_body g node"
        by (auto simp: scan_invariant_def)
      let ?next = "if current = store then deref entry r else state"
      have step: "(if \<not> kNoWrite (op (g current))
                   then ComputeLoopState_switch cfg g current state
                   else Inr (Break state)) = Inr (Break ?next)"
      proof (cases "current = store")
        case True
        with False Cons.prems have "state = entry" by (simp add: scan_invariant_def)
        with True store tracked kill show ?thesis
          by (simp add: ComputeLoopState_switch_def)
      next
        case ne: False
        with only body show ?thesis by simp
      qed
      have smaller: "card (insert node (loop_body g node) - insert current visited) < n"
      proof -
        have "finite (insert node (loop_body g node) - visited)" using fin by simp
        moreover have "current \<in> insert node (loop_body g node) - visited"
          using body False by simp
        ultimately have "card ((insert node (loop_body g node) - visited) - {current})
                          < card (insert node (loop_body g node) - visited)"
          by (rule card_Diff1_less)
        moreover have "insert node (loop_body g node) - insert current visited =
            (insert node (loop_body g node) - visited) - {current}" by auto
        ultimately show ?thesis using less.prems(1) by simp
      qed
      from less.IH[OF smaller refl scan_invariant_visit[OF Cons.prems False]]
      have "ComputeLoopState_while cfg g (queue @ effect_inputs g current)
              (insert current visited) ?next = Some (Inr (deref entry r))" .
      with False step show ?thesis
        by (subst ComputeLoopState_while.simps) simp
    qed
  qed
qed

text \<open>
  C1: let the body of a loop be finite and let its only writing node be a \<open>StoreField\<close> to
  the tracked slot \<open>k\<close> of the object \<open>obj\<close>; let the alias queries of \<open>obj\<close> against the
  keys of slot \<open>k\<close> return and the slot hold one pair for a key. Then \<open>ComputeLoopState\<close>
  returns a state in which slot \<open>k\<close> has no fact for \<open>obj\<close> left (nor for a key that may
  alias it), and which holds every other fact of the entry state: the elements, the slots
  other than \<open>k\<close>, and the pairs of slot \<open>k\<close> whose key does not may-alias \<open>obj\<close>.
\<close>

theorem C1_ComputeLoopState_single_store:
  assumes fin: "finite (loop_body g node)"
    and store: "store \<in> loop_body g node" "opcode (g store) = kStoreField"
      "\<not> kNoWrite (op (g store))"
    and only: "\<forall>n \<in> loop_body g node. n \<noteq> store \<longrightarrow> kNoWrite (op (g n))"
    and tracked: "FieldIndexOf cfg (FieldAccessOf (op (g store))) = Inr (int k)"
    and terminate: "\<forall>field. state_fields entry k = Some field \<longrightarrow>
        (\<forall>p \<in> set (info_for_node field).
           QueryAlias g (GetValueInput (g store) 0) (fst p) \<noteq> None)"
    and keys: "\<forall>field. state_fields entry k = Some field \<longrightarrow>
                 distinct (map fst (info_for_node field))"
  shows "\<exists>state'.
     ComputeLoopState cfg g node entry = Inr state' \<and>
     state_elements state' = state_elements entry \<and>
     (\<forall>j. j \<noteq> k \<longrightarrow> state_fields state' j = state_fields entry j) \<and>
     (state_fields entry k = None \<longrightarrow> state_fields state' k = None) \<and>
     (\<forall>field. state_fields entry k = Some field \<longrightarrow>
        (\<exists>field'. state_fields state' k = Some field' \<and>
           set (info_for_node field') =
             {p \<in> set (info_for_node field).
                QueryAlias g (GetValueInput (g store) 0) (fst p) = Some kNoAlias})) \<and>
     LookupField g state' (GetValueInput (g store) 0) k = Inr None"
proof -
  let ?obj = "GetValueInput (g store) 0"
  let ?queue = "map (InputAt (g node)) [1..<nat (InputCount (g (GetControlInput (g node))))]"
  from FieldIndexOf_range[OF tracked] have k: "k < kMaxTrackedFields" by simp
  from KillField_result[OF k terminate keys] obtain killed where
    killed: "KillField g entry ?obj k = Inr killed \<and>
      state_elements (deref entry killed) = state_elements entry \<and>
      (\<forall>j. j \<noteq> k \<longrightarrow> state_fields (deref entry killed) j = state_fields entry j) \<and>
      (state_fields entry k = None \<longrightarrow> state_fields (deref entry killed) k = None) \<and>
      (\<forall>field. state_fields entry k = Some field \<longrightarrow>
         (\<exists>field'. state_fields (deref entry killed) k = Some field' \<and>
            set (info_for_node field') =
              {p \<in> set (info_for_node field). QueryAlias g ?obj (fst p) = Some kNoAlias})) \<and>
      LookupField g (deref entry killed) ?obj k = Inr None" ..
  then have kill: "KillField g entry ?obj k = Inr killed" by (rule conjunct1)
  from store(1) have "store \<noteq> node" by (rule loop_body_not_phi)
  then have start: "scan_invariant g node store entry (deref entry killed) ?queue {node} entry"
    unfolding scan_invariant_def by (auto intro: loop_body.back_edge)
  from ComputeLoopState_while_returns[OF fin store only tracked kill refl start]
  have "ComputeLoopState cfg g node entry = Inr (deref entry killed)"
    by (simp add: ComputeLoopState_def Let_def)
  with killed show ?thesis by (intro exI[of _ "deref entry killed"]) simp
qed

lemma loop_graph_simps [simp]:
  "loop_graph 10 = node_of kAllocate pure_op {0} [] [] []"
  "loop_graph 20 = node_of kLoop pure_op {0} [] [] [0, 4]"
  "loop_graph 2 = node_of kEffectPhi (op_of 0 2 1 True kTagged 0) {0} [] [0, 4] [20]"
  "loop_graph 3 = node_of kLoadField (op_of 1 1 1 True kTagged 40) {0} [10] [2] []"
  "loop_graph 4 = node_of kStoreField (op_of 2 1 1 False kTagged 40) {0} [10, 11] [3] []"
  "loop_graph 12 = node_of kParameter pure_op {0} [] [] []"
  by (simp_all add: loop_graph_def)

lemma loop_graph_effect_inputs:
  "effect_inputs loop_graph 4 = [3]" "effect_inputs loop_graph 3 = [2]"
  by (simp_all add: effect_inputs_def node_of_def op_of_def input_of_def)

lemma loop_graph_back_edges:
  "[1..<nat (InputCount (loop_graph (GetControlInput (loop_graph 2))))] = [1]"
  by (simp add: node_of_def input_of_def upt_rec)

lemma loop_graph_body: "loop_body loop_graph 2 = {3, 4}"
proof
  show "loop_body loop_graph 2 \<subseteq> {3, 4}"
  proof
    fix n assume "n \<in> loop_body loop_graph 2"
    then show "n \<in> {3, 4}"
      by (induction rule: loop_body.induct)
        (auto simp: loop_graph_back_edges loop_graph_effect_inputs node_of_def input_of_def)
  qed
next
  have "InputAt (loop_graph 2) 1 \<in> loop_body loop_graph 2"
    by (rule loop_body.back_edge)
      (simp_all add: loop_graph_back_edges, simp_all add: node_of_def input_of_def)
  then have four: "4 \<in> loop_body loop_graph 2" by (simp add: node_of_def input_of_def)
  from loop_body.effect_input[OF four, of 3] have "3 \<in> loop_body loop_graph 2"
    by (simp add: loop_graph_effect_inputs)
  with four show "{3, 4} \<subseteq> loop_body loop_graph 2" by simp
qed

lemma loop_alias_10_12: "QueryAlias loop_graph 10 12 = Some kNoAlias"
  by (subst QueryAlias.simps) (simp add: node_of_def Maybe_def)

theorem C1_witness:
  "\<exists>state'.
     ComputeLoopState release_config loop_graph 2 loop_entry_state = Inr state' \<and>
     state_elements state' = state_elements loop_entry_state \<and>
     state_fields state' 7 = state_fields loop_entry_state 7 \<and>
     (\<exists>field'. state_fields state' 5 = Some field' \<and> set (info_for_node field') = {(12, 13)}) \<and>
     LookupField loop_graph state' 10 5 = Inr None"
proof -
  have fin: "finite (loop_body loop_graph 2)" by (simp add: loop_graph_body)
  have store: "4 \<in> loop_body loop_graph 2" "opcode (loop_graph 4) = kStoreField"
      "\<not> kNoWrite (op (loop_graph 4))"
    by (simp_all add: loop_graph_body node_of_def op_of_def)
  have only: "\<forall>n \<in> loop_body loop_graph 2. n \<noteq> 4 \<longrightarrow> kNoWrite (op (loop_graph n))"
    by (simp add: loop_graph_body node_of_def op_of_def)
  have tracked: "FieldIndexOf release_config (FieldAccessOf (op (loop_graph 4))) = Inr (int 5)"
    by (simp add: node_of_def op_of_def FieldIndexOf_def release_config_def DCHECK_def
        signed_divide_int_def kMaxTrackedFields_def)
  have obj: "GetValueInput (loop_graph 4) 0 = 10" by (simp add: node_of_def input_of_def)
  have terminate: "\<forall>field. state_fields loop_entry_state 5 = Some field \<longrightarrow>
        (\<forall>p \<in> set (info_for_node field).
           QueryAlias loop_graph (GetValueInput (loop_graph 4) 0) (fst p) \<noteq> None)"
    unfolding obj
    by (simp add: loop_entry_state_def field_of_def QueryAlias_same loop_alias_10_12)
  have keys: "\<forall>field. state_fields loop_entry_state 5 = Some field \<longrightarrow>
                 distinct (map fst (info_for_node field))"
    by (simp add: loop_entry_state_def field_of_def)
  have left: "{p \<in> set (info_for_node (field_of [(10, 9), (12, 13)])).
                QueryAlias loop_graph 10 (fst p) = Some kNoAlias} = {(12, 13)}"
    by (auto simp: field_of_def QueryAlias_same loop_alias_10_12)
  have slot: "state_fields loop_entry_state 5 = Some (field_of [(10, 9), (12, 13)])"
    by (simp add: loop_entry_state_def)
  from C1_ComputeLoopState_single_store[OF fin store only tracked terminate keys]
  show ?thesis unfolding obj using slot left by (auto simp: )
qed

section \<open>The ring invariant is kept\<close>

lemma length_filled: "length xs \<le> n \<Longrightarrow> length (elements (filled n xs)) = n"
  by (simp add: filled_def)

lemma nonempty_filled:
  "filter (\<lambda>e. object e \<noteq> None) (elements (filled n xs)) = filter (\<lambda>e. object e \<noteq> None) xs"
  by (simp add: filled_def empty_Element_def)

lemma survives_nonempty: "survives g obj idx e \<Longrightarrow> object e \<noteq> None"
  by (auto simp: survives_def split: option.splits)

lemma Kill_copy_filled:
  assumes "\<forall>e \<in> set es. object e = None \<or> (index e \<noteq> None \<and> val e \<noteq> None)"
    and "\<forall>e \<in> set es. case object e of
             None \<Rightarrow> True
           | Some eo \<Rightarrow>
               QueryAlias g obj eo \<noteq> None \<and>
               (case index e of None \<Rightarrow> True | Some ei \<Rightarrow> QueryAlias g idx ei \<noteq> None)"
    and "length xs + length es \<le> n"
  shows "Kill_copy cfg g obj idx es (filled n xs) =
           Inr (filled n (xs @ filter (survives g obj idx) es))"
  using assms
proof (induction es arbitrary: xs)
  case Nil
  then show ?case by simp
next
  case (Cons e es)
  from Cons.prems have room: "length xs < n" by simp
  have skip: "Kill_copy cfg g obj idx es (filled n xs) =
                Inr (filled n (xs @ filter (survives g obj idx) es))"
    using Cons.prems by (intro Cons.IH) auto
  have keep: "Kill_copy cfg g obj idx es (filled n (xs @ [e])) =
                Inr (filled n ((xs @ [e]) @ filter (survives g obj idx) es))"
    using Cons.prems by (intro Cons.IH) auto
  show ?case
  proof (cases "object e")
    case None
    then have "\<not> survives g obj idx e" by (simp add: survives_def)
    with skip None show ?thesis by simp
  next
    case (Some eo)
    with Cons.prems(1) obtain ei where ei: "index e = Some ei" and v: "val e \<noteq> None" by auto
    from Some ei Cons.prems(2) obtain r1 r2 where
      r1: "QueryAlias g obj eo = Some r1" and r2: "QueryAlias g idx ei = Some r2" by auto
    show ?thesis
    proof (cases "r1 = kNoAlias \<or> r2 = kNoAlias")
      case True
      with Some ei r1 r2 have sv: "survives g obj idx e" by (auto simp: survives_def)
      from True Some ei v r1 r2 store_next_filled[OF room, of e]
      have "Kill_copy cfg g obj idx (e # es) (filled n xs) =
              Kill_copy cfg g obj idx es (filled n (xs @ [e]))"
        by (auto simp: alias_with_def MayAlias_def)
      with keep sv show ?thesis by simp
    next
      case False
      with Some ei r1 r2 have sv: "\<not> survives g obj idx e" by (auto simp: survives_def)
      from False Some ei v r1 r2
      have "Kill_copy cfg g obj idx (e # es) (filled n xs) =
              Kill_copy cfg g obj idx es (filled n xs)"
        by (auto simp: alias_with_def MayAlias_def)
      with skip sv show ?thesis by simp
    qed
  qed
qed

lemma ring_invariant_filled:
  assumes "length xs \<le> kMaxTrackedElements" "distinct xs"
    and "\<forall>e \<in> set xs. object e \<noteq> None \<and> index e \<noteq> None \<and> val e \<noteq> None"
  shows "ring_invariant (filled kMaxTrackedElements xs
           \<lparr>next_index := next_index (filled kMaxTrackedElements xs) mod kMaxTrackedElements\<rparr>)"
proof -
  from assms(3) have "filter (\<lambda>e. object e \<noteq> None) xs = xs" by (simp add: filter_id_conv)
  then have "filter (\<lambda>e. object e \<noteq> None) (elements (filled kMaxTrackedElements xs)) = xs"
    by (simp only: nonempty_filled)
  with assms(2) have "distinct (filter (\<lambda>e. object e \<noteq> None) (elements (filled kMaxTrackedElements xs)))"
    by (simp only:)
  moreover from assms(3)
  have "list_all (\<lambda>e. object e = None \<or> (index e \<noteq> None \<and> val e \<noteq> None))
          (elements (filled kMaxTrackedElements xs))"
    by (auto simp: filled_def list_all_iff empty_Element_def)
  ultimately show ?thesis using assms(1)
    by (simp add: ring_invariant_def wf_elements_def distinct_facts_def length_filled
        kMaxTrackedElements_def)
qed

lemma ring_invariant_new: "ring_invariant new_AbstractElements"
proof -
  have "distinct_facts new_AbstractElements"
    by (simp add: distinct_facts_def new_AbstractElements_def empty_Element_def)
  with wf_elements_new show ?thesis by (simp add: ring_invariant_def)
qed

lemma ring_invariant_Kill:
  assumes inv: "ring_invariant ring" and ret: "alias_queries_return g obj idx ring"
  shows "\<exists>r. Kill cfg g ring obj idx = Inr r \<and> ring_invariant (deref ring r)"
proof -
  from inv have wf: "wf_elements ring" and dist: "distinct_facts ring"
    by (simp_all add: ring_invariant_def)
  from wf have valid: "\<forall>e \<in> set (elements ring). object e = None \<or> (index e \<noteq> None \<and> val e \<noteq> None)"
    by (simp add: wf_elements_def list_all_iff)
  from ret have q: "\<forall>e \<in> set (elements ring). case object e of
             None \<Rightarrow> True
           | Some eo \<Rightarrow>
               QueryAlias g obj eo \<noteq> None \<and>
               (case index e of None \<Rightarrow> True | Some ei \<Rightarrow> QueryAlias g idx ei \<noteq> None)"
    by (simp add: alias_queries_return_def list_all_iff)
  from wf have room: "length ([] :: Element list) + length (elements ring) \<le> kMaxTrackedElements"
    by (simp add: wf_elements_def)
  let ?kept = "filter (survives g obj idx) (elements ring)"
  from Kill_copy_filled[OF valid q room, of cfg]
  have copy: "Kill_copy cfg g obj idx (elements ring) new_AbstractElements =
                Inr (filled kMaxTrackedElements ?kept)"
    by (simp add: new_AbstractElements_filled)
  from q have q1: "\<forall>e \<in> set (elements ring).
           (case object e of None \<Rightarrow> True | Some eo \<Rightarrow> QueryAlias g obj eo \<noteq> None)"
    by (auto split: option.splits)
  have "filter (survives g obj idx) (filter (\<lambda>e. object e \<noteq> None) (elements ring)) = ?kept"
    unfolding filter_filter by (rule filter_cong) (auto dest: survives_nonempty)
  moreover from dist have "distinct (filter (\<lambda>e. object e \<noteq> None) (elements ring))"
    unfolding distinct_facts_def by (rule conjunct2)
  then have "distinct (filter (survives g obj idx) (filter (\<lambda>e. object e \<noteq> None) (elements ring)))"
    by (rule distinct_filter)
  ultimately have d: "distinct ?kept" by (simp only:)
  have l: "length ?kept \<le> kMaxTrackedElements"
    using wf length_filter_le[of "survives g obj idx" "elements ring"]
    by (simp add: wf_elements_def)
  have v: "\<forall>e \<in> set ?kept. object e \<noteq> None \<and> index e \<noteq> None \<and> val e \<noteq> None"
    using valid by (auto dest: survives_nonempty)
  from Kill_scan_result[OF q1 copy]
  have "Kill cfg g ring obj idx = Inr ReturnThis \<or>
        Kill cfg g ring obj idx =
          Inr (ReturnNew (filled kMaxTrackedElements ?kept
            \<lparr>next_index := next_index (filled kMaxTrackedElements ?kept) mod kMaxTrackedElements\<rparr>))"
    by (auto simp: Kill_def)
  with inv ring_invariant_filled[OF l d v] show ?thesis
    by (auto simp: deref_def)
qed

lemma distinct_filter_update:
  "distinct (filter P xs) \<Longrightarrow> x \<notin> set xs \<Longrightarrow> distinct (filter P (xs[c := x]))"
proof (induction xs arbitrary: c)
  case Nil
  then show ?case by simp
next
  case (Cons y ys)
  show ?case
  proof (cases c)
    case 0
    with Cons.prems show ?thesis by (auto split: if_splits)
  next
    case (Suc c')
    from Cons.prems have "distinct (filter P (ys[c' := x]))" by (intro Cons.IH) (auto split: if_splits)
    moreover have "set (ys[c' := x]) \<subseteq> insert x (set ys)" by (rule set_update_subset_insert)
    ultimately show ?thesis using Suc Cons.prems by (auto split: if_splits)
  qed
qed

lemma ring_invariant_Extend:
  assumes inv: "ring_invariant ring" and ret: "alias_queries_return g obj idx ring"
  shows "\<exists>extended. Extend cfg g ring obj idx v = Inr extended \<and> ring_invariant extended"
proof -
  from inv have wf: "wf_elements ring" by (simp add: ring_invariant_def)
  from ring_invariant_Kill[OF inv ret, of cfg] obtain r where
    r: "Kill cfg g ring obj idx = Inr r" and inv': "ring_invariant (deref ring r)" by blast
  from Kill_result[OF wf ret, of cfg] r
  have sub: "\<forall>e \<in> set (elements (deref ring r)).
              object e \<noteq> None \<longrightarrow> e \<in> set (elements ring) \<and> survives g obj idx e"
    by simp
  let ?killed = "deref ring r"
  let ?stored = "?killed\<lparr>elements := (elements ?killed)[next_index ?killed := fact obj idx v],
                          next_index := next_index ?killed + 1\<rparr>"
  let ?extended = "?stored\<lparr>next_index := next_index ?stored mod kMaxTrackedElements\<rparr>"
  from inv' have wf': "wf_elements ?killed" and dist': "distinct_facts ?killed"
    by (simp_all add: ring_invariant_def)
  from wf' have inside: "next_index ?killed < length (elements ?killed)"
    by (simp add: wf_elements_def)
  then have store: "store_next ?killed (fact obj idx v) = Inr ?stored"
    by (simp add: store_next_def)
  have ext: "Extend cfg g ring obj idx v = Inr ?extended"
    using r store by (simp add: Extend_def fact_def)
  have fresh: "fact obj idx v \<notin> set (elements ?killed)"
  proof
    assume "fact obj idx v \<in> set (elements ?killed)"
    with sub have "survives g obj idx (fact obj idx v)" by (simp add: fact_def)
    then show False by (simp add: not_survives_same)
  qed
  from dist' fresh
  have "distinct (filter (\<lambda>e. object e \<noteq> None) ((elements ?killed)[next_index ?killed := fact obj idx v]))"
    by (intro distinct_filter_update) (simp_all add: distinct_facts_def)
  moreover have "list_all (\<lambda>e. object e = None \<or> (index e \<noteq> None \<and> val e \<noteq> None))
                   ((elements ?killed)[next_index ?killed := fact obj idx v])"
    unfolding list_all_iff
  proof
    fix e assume "e \<in> set ((elements ?killed)[next_index ?killed := fact obj idx v])"
    with set_update_subset_insert[of "elements ?killed" "next_index ?killed" "fact obj idx v"]
    have "e = fact obj idx v \<or> e \<in> set (elements ?killed)" by auto
    then show "object e = None \<or> (index e \<noteq> None \<and> val e \<noteq> None)"
    proof
      assume "e = fact obj idx v"
      then show ?thesis by (simp add: fact_def)
    next
      assume "e \<in> set (elements ?killed)"
      with wf' show ?thesis by (simp add: wf_elements_def list_all_iff)
    qed
  qed
  ultimately have "ring_invariant ?extended"
    using wf' by (simp add: ring_invariant_def wf_elements_def distinct_facts_def
        kMaxTrackedElements_def)
  with ext show ?thesis by blast
qed

lemma ring_invariant_Merge:
  assumes left: "ring_invariant this" and right: "ring_invariant that"
  shows "\<exists>r. Merge this that = Inr r \<and> ring_invariant (deref this r)"
proof (cases "Equals this that")
  case True
  with left show ?thesis by (simp add: Merge_def deref_def)
next
  case False
  from left have wf: "wf_elements this" and dist: "distinct_facts this"
    by (simp_all add: ring_invariant_def)
  from right have dthat: "distinct (filter (\<lambda>e. object e \<noteq> None) (elements that))"
    by (simp add: ring_invariant_def distinct_facts_def)
  have once: "\<forall>e \<in> set (elements this). object e \<noteq> None \<longrightarrow> count_list (elements that) e \<le> 1"
  proof (intro ballI impI)
    fix e assume "e \<in> set (elements this)" "object e \<noteq> None"
    from count_list_filter[of "\<lambda>e. object e \<noteq> None" e "elements that", OF this(2)]
      distinct_count_le_1[OF dthat, of e]
    show "count_list (elements that) e \<le> 1" by simp
  qed
  from wf have room: "length ([] :: Element list) + length (elements this) \<le> kMaxTrackedElements"
    by (simp add: wf_elements_def)
  let ?kept = "filter (\<lambda>e. object e \<noteq> None \<and> e \<in> set (elements that)) (elements this)"
  from Merge_outer_filled[OF room once]
  have "Merge_outer (elements this) (elements that) new_AbstractElements =
          Inr (filled kMaxTrackedElements ?kept)"
    by (simp add: new_AbstractElements_filled)
  with False have merged: "Merge this that =
      Inr (ReturnNew (filled kMaxTrackedElements ?kept
             \<lparr>next_index := next_index (filled kMaxTrackedElements ?kept) mod kMaxTrackedElements\<rparr>))"
    by (simp add: Merge_def)
  have "filter (\<lambda>e. e \<in> set (elements that)) (filter (\<lambda>e. object e \<noteq> None) (elements this))
          = ?kept"
    unfolding filter_filter ..
  moreover from dist have "distinct (filter (\<lambda>e. object e \<noteq> None) (elements this))"
    unfolding distinct_facts_def by (rule conjunct2)
  then have "distinct (filter (\<lambda>e. e \<in> set (elements that))
                   (filter (\<lambda>e. object e \<noteq> None) (elements this)))"
    by (rule distinct_filter)
  ultimately have d: "distinct ?kept" by (simp only:)
  have l: "length ?kept \<le> kMaxTrackedElements"
    using wf length_filter_le[of "\<lambda>e. object e \<noteq> None \<and> e \<in> set (elements that)" "elements this"]
    by (simp add: wf_elements_def)
  have v: "\<forall>e \<in> set ?kept. object e \<noteq> None \<and> index e \<noteq> None \<and> val e \<noteq> None"
    using wf by (auto simp: wf_elements_def list_all_iff)
  from merged ring_invariant_filled[OF l d v] show ?thesis by (simp add: deref_def)
qed

section \<open>A field maps a key once\<close>

lemma distinct_keys_insert_pair:
  "distinct (map fst (info_for_node that)) \<Longrightarrow>
   distinct (map fst (info_for_node (insert_pair pair that)))"
  by (simp add: insert_pair_def)

lemma distinct_keys_Kill_field_copy:
  "Kill_field_copy g obj ps that = Inr that' \<Longrightarrow>
   distinct (map fst (info_for_node that)) \<Longrightarrow>
   distinct (map fst (info_for_node that'))"
proof (induction ps arbitrary: that)
  case Nil
  then show ?case by simp
next
  case (Cons p ps)
  from Cons.prems(1) obtain may where may: "MayAlias g obj (fst p) = Some may"
    by (auto simp: and_then_eq_Inr)
  show ?case
  proof (cases may)
    case True
    with may Cons.prems(1) have "Kill_field_copy g obj ps that = Inr that'" by simp
    from Cons.IH[OF this Cons.prems(2)] show ?thesis .
  next
    case False
    with may Cons.prems(1)
    have "Kill_field_copy g obj ps (insert_pair p that) = Inr that'" by simp
    from Cons.IH[OF this distinct_keys_insert_pair[OF Cons.prems(2)]] show ?thesis .
  qed
qed

lemma distinct_keys_Kill_field:
  assumes "Kill_field g this obj = Inr r" "distinct (map fst (info_for_node this))"
  shows "distinct (map fst (info_for_node (deref this r)))"
proof (cases r)
  case ReturnThis
  with assms(2) show ?thesis by (simp add: deref_def)
next
  case (ReturnNew that)
  with assms(1) have "Kill_field_copy g obj (info_for_node this) new_AbstractField = Inr that"
    by (auto simp: Kill_field_def dest: Kill_field_scan_new)
  from distinct_keys_Kill_field_copy[OF this] ReturnNew show ?thesis
    by (simp add: new_AbstractField_def deref_def)
qed

lemma distinct_keys_Extend_field:
  assumes "Extend_field g this obj v = Inr extended" "distinct (map fst (info_for_node this))"
  shows "distinct (map fst (info_for_node extended))"
proof -
  from assms(1) obtain r where r: "Kill_field g this obj = Inr r"
    and e: "extended = insert_pair (obj, v) (deref this r)"
    by (auto simp: Extend_field_def and_then_eq_Inr)
  from distinct_keys_insert_pair[OF distinct_keys_Kill_field[OF r assms(2)]] e
  show ?thesis by simp
qed

lemma distinct_keys_Merge_field:
  "distinct (map fst (info_for_node this)) \<Longrightarrow>
   distinct (map fst (info_for_node (Merge_field this that)))"
  by (simp add: Merge_field_def distinct_map_filter)

text \<open>
  Without the invariant the merge of two rings can leave the array: each of the three
  copies of a fact in the receiver is stored once for each of its three copies in the
  argument, nine stores into eight entries.
\<close>

lemma Merge_duplicates_out_of_bounds:
  "Merge (ring_of [fact 2 2 2, fact 2 2 2, fact 2 2 2, fact 3 3 3])
         (ring_of [fact 2 2 2, fact 2 2 2, fact 2 2 2, fact 4 4 4]) = Inl OutOfBounds"
  by code_simp

end
